theory Spec2Isabelle
  imports Main "HOL-Library.Product_Lexorder" "HOL-Library.List_Lexorder"
begin

section \<open>Python values used by the game\<close>

text \<open>
  Exceptions of the Python source are values: every \<^verbatim>\<open>raise\<close> and every failing
  list access of the code is a branch of the model that returns one of these.
\<close>

datatype error = RuntimeError | IndexError | TypeError | ValueError

text \<open>
  \<^verbatim>\<open>util.Vector\<close> is a named tuple of two unbounded Python integers. Only the
  vector-plus-vector branch of \<^verbatim>\<open>__add__\<close> is used by the code modelled here.
\<close>

type_synonym vector = "int \<times> int"

definition vec_add :: "vector \<Rightarrow> vector \<Rightarrow> vector" where
  "vec_add a b = (fst a + fst b, snd a + snd b)"

text \<open>
  \<^verbatim>\<open>util.Move\<close>: an enumeration in the order up, down, right, left, stop, each member
  carrying its vector. The five vectors are distinct, so no member is an alias of another
  and \<^verbatim>\<open>list(Move)\<close> has five elements.
\<close>

datatype move = up | down | right | left | stop

definition Move :: "move list" where
  "Move = [up, down, right, left, stop]"

fun vector :: "move \<Rightarrow> vector" where
  "vector up = (0, 1)"
| "vector down = (0, -1)"
| "vector right = (1, 0)"
| "vector left = (-1, 0)"
| "vector stop = (0, 0)"

text \<open>\<^verbatim>\<open>xs.index(v)\<close>: position of the first element equal to v, ValueError when absent.\<close>

fun py_index :: "'a list \<Rightarrow> 'a \<Rightarrow> error + nat" where
  "py_index [] v = Inl ValueError"
| "py_index (x # xs) v =
     (if x = v then Inr 0
      else (case py_index xs v of Inl e \<Rightarrow> Inl e | Inr n \<Rightarrow> Inr (Suc n)))"

text \<open>\<^verbatim>\<open>xs[i]\<close> for a Python integer i: negative indices count from the end.\<close>

definition py_get :: "'a list \<Rightarrow> int \<Rightarrow> error + 'a" where
  "py_get xs i =
     (if 0 \<le> i \<and> i < int (length xs) then Inr (xs ! nat i)
      else if i < 0 \<and> - int (length xs) \<le> i then Inr (xs ! nat (int (length xs) + i))
      else Inl IndexError)"

definition index :: "move \<Rightarrow> error + nat" where
  "index m = py_index Move m"

definition by_index :: "int \<Rightarrow> error + move" where
  "by_index i = py_get Move i"

definition opposite :: "move \<Rightarrow> error + move" where
  "opposite m =
     (if m = stop then Inr stop
      else (case index m of
              Inl e \<Rightarrow> Inl e
            | Inr i \<Rightarrow> by_index (int i + 1 - 2 * (int i mod 2))))"

definition no_stop :: "move list" where
  "no_stop = filter (\<lambda>m. m \<noteq> stop) Move"


section \<open>Array: the two-dimensional grid\<close>

text \<open>
  An \<^verbatim>\<open>Array\<close> holds \<^verbatim>\<open>_array\<close>, a list of columns; \<^verbatim>\<open>array[x, y]\<close> is
  \<^verbatim>\<open>_array[x][y]\<close>. The model is that list of lists. The two memo dictionaries of the
  class are cleared by every \<^verbatim>\<open>__setitem__\<close>, the only write to the cells, so a cached
  indicator or coordinate list always equals a freshly computed one; the model computes
  them afresh.
\<close>

type_synonym 'a array = "'a list list"

definition contains :: "'a array \<Rightarrow> vector \<Rightarrow> bool" where
  "contains a v =
     (case a of
        [] \<Rightarrow> False
      | c # _ \<Rightarrow> (0 \<le> fst v \<and> fst v < int (length a)) \<and> (0 \<le> snd v \<and> snd v < int (length c)))"

definition shape :: "'a array \<Rightarrow> vector" where
  "shape a = (case a of [] \<Rightarrow> (0, 0) | c # _ \<Rightarrow> (int (length a), int (length c)))"

text \<open>
  \<^verbatim>\<open>__getitem__\<close> for a 2-tuple. Inside the bounds the cell is read, which raises
  IndexError when column x is shorter than column 0; outside, the result is None.
\<close>

definition getitem :: "'a array \<Rightarrow> vector \<Rightarrow> error + 'a option" where
  "getitem a v =
     (if contains a v then
        (if nat (snd v) < length (a ! nat (fst v))
         then Inr (Some (a ! nat (fst v) ! nat (snd v)))
         else Inl IndexError)
      else Inr None)"

text \<open>
  \<^verbatim>\<open>__setitem__\<close>: \<^verbatim>\<open>self._array[x][y] = value\<close>, with Python's list indexing (negative
  indices wrap, anything else out of range raises IndexError).
\<close>

definition py_set :: "'a list \<Rightarrow> int \<Rightarrow> 'a \<Rightarrow> error + 'a list" where
  "py_set xs i v =
     (if 0 \<le> i \<and> i < int (length xs) then Inr (xs[nat i := v])
      else if i < 0 \<and> - int (length xs) \<le> i then Inr (xs[nat (int (length xs) + i) := v])
      else Inl IndexError)"

definition setitem :: "'a array \<Rightarrow> vector \<Rightarrow> 'a \<Rightarrow> error + 'a array" where
  "setitem a k v =
     (case py_get a (fst k) of
        Inl e \<Rightarrow> Inl e
      | Inr col \<Rightarrow>
          (case py_set col (snd k) v of
             Inl e \<Rightarrow> Inl e
           | Inr col' \<Rightarrow> py_set a (fst k) col'))"

text \<open>\<^verbatim>\<open>zip(*columns)\<close> stops at the shortest column; with no column it yields nothing.\<close>

definition min_len :: "'a list list \<Rightarrow> nat" where
  "min_len xss = (case xss of [] \<Rightarrow> 0 | c # cs \<Rightarrow> fold (\<lambda>d n. min (length d) n) cs (length c))"

definition zip_star :: "'a list list \<Rightarrow> 'a list list" where
  "zip_star xss = map (\<lambda>i. map (\<lambda>c. c ! i) xss) [0..<min_len xss]"

definition transpose_arr :: "'a array \<Rightarrow> 'a array" where
  "transpose_arr a = zip_star a"

definition mirror_hor :: "'a array \<Rightarrow> 'a array" where
  "mirror_hor a = rev a"

definition mirror_ver :: "'a array \<Rightarrow> 'a array" where
  "mirror_ver a = transpose_arr (mirror_hor (transpose_arr a))"

text \<open>\<^verbatim>\<open>Array.__eq__\<close> compares the two \<^verbatim>\<open>_array\<close> lists cell for cell.\<close>

definition array_eq :: "'a array \<Rightarrow> 'a array \<Rightarrow> bool" where
  "array_eq a b = (a = b)"

definition rectangular :: "'a array \<Rightarrow> bool" where
  "rectangular a = (\<forall>c \<in> set a. length c = length (hd a))"

text \<open>
  \<^verbatim>\<open>IndicatorArray(lst, value)\<close> stores \<^verbatim>\<open>map_2d(lambda v: v == value, lst)\<close> as its own
  \<^verbatim>\<open>_array\<close>; its \<^verbatim>\<open>__getitem__\<close> is the one of Array on those booleans.
\<close>

definition map_2d :: "('a \<Rightarrow> 'b) \<Rightarrow> 'a list list \<Rightarrow> 'b list list" where
  "map_2d f l = map (map f) l"

definition indicate :: "'a array \<Rightarrow> 'a \<Rightarrow> bool array" where
  "indicate a value = map_2d (\<lambda>v. v = value) a"

text \<open>Python truthiness of a looked-up indicator cell: None and False are falsy.\<close>

fun truthy :: "bool option \<Rightarrow> bool" where
  "truthy None = False"
| "truthy (Some b) = b"

text \<open>
  \<^verbatim>\<open>Array.list(value)\<close> walks \<^verbatim>\<open>itertools.product(range(shape.x), range(shape.y))\<close> and
  reads \<^verbatim>\<open>_array[x][y]\<close>: it raises IndexError as soon as a column is shorter than
  column 0, and never looks beyond the height of column 0.
\<close>

definition list_arr :: "'a array \<Rightarrow> 'a \<Rightarrow> error + vector list" where
  "list_arr a value =
     (let w = nat (fst (shape a)); h = nat (snd (shape a))
      in if \<exists>x \<in> set [0..<w]. length (a ! x) < h then Inl IndexError
         else Inr (concat (map (\<lambda>x. map (\<lambda>y. (int x, int y))
                                  (filter (\<lambda>y. a ! x ! y = value) [0..<h])) [0..<w])))"



section \<open>Gamestate\<close>

text \<open>
  \<^verbatim>\<open>layouts.LayoutObject\<close>, the cell kinds of a layout. The constructors are capitalised
  because \<^verbatim>\<open>pacman\<close> is also a property of the gamestate.
\<close>

datatype layout_object = Empty | Wall | Pacman | Ghost | Ghost_scared | Dot | Pellet

definition PACMAN_ID :: nat where "PACMAN_ID = 0"
definition SCARED_TIME :: int where "SCARED_TIME = 40"
definition SCORE_GET_DOT :: int where "SCORE_GET_DOT = 10"
definition SCORE_GET_ALL_DOTS :: int where "SCORE_GET_ALL_DOTS = 500"
definition SCORE_GET_PELLET :: int where "SCORE_GET_PELLET = 5"
definition SCORE_GET_GHOST :: int where "SCORE_GET_GHOST = 200"
definition SCORE_TICK_PENALTY :: int where "SCORE_TICK_PENALTY = - 1"
definition SCORE_DIE_PENALTY :: int where "SCORE_DIE_PENALTY = - 500"

text \<open>
  The fields of a \<^verbatim>\<open>Gamestate\<close> object. An agent position is a vector or None (dead);
  a vector is always truthy in Python (a non-empty tuple), so \<^verbatim>\<open>not self.agents[i]\<close>
  tests for None. Agent ids are list indices from 0.
\<close>

record gamestate =
  statics :: "layout_object array"
  agents :: "vector option list"
  starts :: "vector option list"
  facings :: "move list"
  timers :: "int list"
  score :: int
  tick :: int

definition walls :: "gamestate \<Rightarrow> bool array" where
  "walls g = indicate (statics g) Wall"

definition dots :: "gamestate \<Rightarrow> bool array" where
  "dots g = indicate (statics g) Dot"

definition pellets :: "gamestate \<Rightarrow> bool array" where
  "pellets g = indicate (statics g) Pellet"

definition pacman :: "gamestate \<Rightarrow> error + vector option" where
  "pacman g = (if length (agents g) \<le> PACMAN_ID then Inl IndexError else Inr (agents g ! PACMAN_ID))"

definition ghosts :: "gamestate \<Rightarrow> vector option list" where
  "ghosts g = drop (PACMAN_ID + 1) (agents g)"

text \<open>\<^verbatim>\<open>Gamestate.copy\<close> builds a new object holding copies of all seven fields.\<close>

definition copy :: "gamestate \<Rightarrow> gamestate" where
  "copy g = \<lparr>statics = map (\<lambda>column. column) (statics g), agents = agents g, starts = starts g,
              facings = facings g, timers = timers g, score = score g, tick = tick g\<rparr>"

text \<open>
  A method that mutates the gamestate returns the state it leaves behind together with the
  exception it raised, if any: a raise does not undo the assignments made before it.
\<close>

type_synonym outcome = "error option \<times> gamestate"

fun then_do :: "outcome \<Rightarrow> (gamestate \<Rightarrow> outcome) \<Rightarrow> outcome" where
  "then_do (Some e, g) f = (Some e, g)"
| "then_do (None, g) f = f g"

definition kill :: "nat \<Rightarrow> gamestate \<Rightarrow> outcome" where
  "kill agent_id g =
     (if agent_id = PACMAN_ID then
        (if length (agents g) \<le> agent_id then (Some IndexError, g)
         else (None, g\<lparr>agents := (agents g)[agent_id := None]\<rparr>))
      else
        (if length (starts g) \<le> agent_id \<or> length (agents g) \<le> agent_id then (Some IndexError, g)
         else
           (let g1 = g\<lparr>agents := (agents g)[agent_id := starts g ! agent_id]\<rparr>
            in if length (timers g1) \<le> agent_id then (Some IndexError, g1)
               else (None, g1\<lparr>timers := (timers g1)[agent_id := 0]\<rparr>))))"

definition resolve_encounter :: "nat \<Rightarrow> gamestate \<Rightarrow> outcome" where
  "resolve_encounter ghost_id g =
     (if length (timers g) \<le> ghost_id then (Some IndexError, g)
      else if timers g ! ghost_id \<noteq> 0 then
        then_do (kill ghost_id g) (\<lambda>g1. (None, g1\<lparr>score := score g1 + SCORE_GET_GHOST\<rparr>))
      else
        then_do (kill PACMAN_ID g) (\<lambda>g1. (None, g1\<lparr>score := score g1 + SCORE_DIE_PENALTY\<rparr>)))"

text \<open>Lines 147 to 149 of \<^verbatim>\<open>apply_move\<close>: Pacman runs into the first ghost standing on the cell.\<close>

definition meet_ghost :: "vector \<Rightarrow> gamestate \<Rightarrow> outcome" where
  "meet_ghost new_vector g =
     (case py_index (ghosts g) (Some new_vector) of
        Inl _ \<Rightarrow> (None, g)
      | Inr i \<Rightarrow> resolve_encounter (i + 1) g)"

text \<open>Lines 151 to 155: Pacman eats a dot.\<close>

definition eat_dot :: "vector \<Rightarrow> gamestate \<Rightarrow> outcome" where
  "eat_dot new_vector g =
     (case getitem (dots g) new_vector of
        Inl e \<Rightarrow> (Some e, g)
      | Inr d \<Rightarrow>
          if truthy d then
            (case setitem (statics g) new_vector Empty of
               Inl e \<Rightarrow> (Some e, g)
             | Inr a \<Rightarrow>
                 (let g1 = g\<lparr>statics := a\<rparr>;
                      g2 = g1\<lparr>score := score g1 + SCORE_GET_DOT\<rparr>
                  in case list_arr (dots g2) True of
                       Inl e \<Rightarrow> (Some e, g2)
                     | Inr ds \<Rightarrow>
                         if ds = [] then (None, g2\<lparr>score := score g2 + SCORE_GET_ALL_DOTS\<rparr>)
                         else (None, g2)))
          else (None, g))"

text \<open>Lines 157 to 160: Pacman eats a pellet; every timer but Pacman's is set.\<close>

definition eat_pellet :: "vector \<Rightarrow> gamestate \<Rightarrow> outcome" where
  "eat_pellet new_vector g =
     (case getitem (pellets g) new_vector of
        Inl e \<Rightarrow> (Some e, g)
      | Inr p \<Rightarrow>
          if truthy p then
            (case setitem (statics g) new_vector Empty of
               Inl e \<Rightarrow> (Some e, g)
             | Inr a \<Rightarrow>
                 (let g1 = g\<lparr>statics := a\<rparr>;
                      g2 = g1\<lparr>score := score g1 + SCORE_GET_PELLET\<rparr>
                  in (None, g2\<lparr>timers := take 1 (timers g2)
                                   @ replicate (length (drop 1 (timers g2))) SCARED_TIME\<rparr>)))
          else (None, g))"

text \<open>
  \<^verbatim>\<open>apply_move\<close>. The move may be None (an agent that made no move), which stands for
  stop. The assignments are in the order of the source, so the state returned with an
  exception is the state at the raise.
\<close>

definition apply_move :: "nat \<Rightarrow> move option \<Rightarrow> gamestate \<Rightarrow> outcome" where
  "apply_move agent_id mv g =
     (if length (agents g) \<le> agent_id then (Some IndexError, g)
      else
        (case agents g ! agent_id of
           None \<Rightarrow> (None, g)
         | Some vec \<Rightarrow>
             (let move = (case mv of None \<Rightarrow> stop | Some m \<Rightarrow> m)
              in if length (facings g) \<le> agent_id then (Some IndexError, g)
                 else
                   (let g1 = g\<lparr>facings := (facings g)[agent_id := move]\<rparr>;
                        new_vector = vec_add vec (vector move);
                        g2 = g1\<lparr>agents := (agents g1)[agent_id := Some new_vector]\<rparr>
                    in if length (timers g2) \<le> agent_id then (Some IndexError, g2)
                       else
                         (let g3 = (if timers g2 ! agent_id \<noteq> 0
                                    then g2\<lparr>timers := (timers g2)[agent_id := timers g2 ! agent_id - 1]\<rparr>
                                    else g2);
                              g4 = (if agent_id = PACMAN_ID
                                    then g3\<lparr>score := score g3 + SCORE_TICK_PENALTY\<rparr>
                                    else g3)
                          in case getitem (walls g4) new_vector of
                               Inl e \<Rightarrow> (Some e, g4)
                             | Inr w \<Rightarrow>
                                 if truthy w then
                                   (Some RuntimeError,
                                    if agent_id = PACMAN_ID
                                    then g4\<lparr>score := score g4 + SCORE_DIE_PENALTY\<rparr>
                                    else g4)
                                 else if agent_id = PACMAN_ID then
                                   then_do (then_do (meet_ghost new_vector g4) (eat_dot new_vector))
                                           (eat_pellet new_vector)
                                 else
                                   (case pacman g4 of
                                      Inl e \<Rightarrow> (Some e, g4)
                                    | Inr p \<Rightarrow>
                                        if p = Some new_vector then resolve_encounter agent_id g4
                                        else (None, g4)))))))"

text \<open>
  \<^verbatim>\<open>legal_moves_vector\<close> adds to a set, in the order of the enumeration, every move whose
  destination does not read as a wall. The model returns the moves in that order of
  insertion; the set is the set of the list.
\<close>

fun legal_moves_loop :: "gamestate \<Rightarrow> vector \<Rightarrow> move list \<Rightarrow> error + move list" where
  "legal_moves_loop g vec [] = Inr []"
| "legal_moves_loop g vec (m # ms) =
     (case getitem (walls g) (vec_add vec (vector m)) of
        Inl e \<Rightarrow> Inl e
      | Inr w \<Rightarrow>
          (case legal_moves_loop g vec ms of
             Inl e \<Rightarrow> Inl e
           | Inr moves \<Rightarrow> Inr (if \<not> truthy w then m # moves else moves)))"

definition legal_moves_vector :: "gamestate \<Rightarrow> vector \<Rightarrow> error + move list" where
  "legal_moves_vector g vec = legal_moves_loop g vec Move"

text \<open>
  \<^verbatim>\<open>legal_moves_id\<close> passes \<^verbatim>\<open>self.agents[agent_id]\<close> on; for a dead agent that is None,
  and adding a vector to None raises TypeError.
\<close>

definition legal_moves_id :: "gamestate \<Rightarrow> nat \<Rightarrow> error + move list" where
  "legal_moves_id g agent_id =
     (if length (agents g) \<le> agent_id then Inl IndexError
      else (case agents g ! agent_id of
              None \<Rightarrow> Inl TypeError
            | Some vec \<Rightarrow> legal_moves_vector g vec))"

definition loss :: "gamestate \<Rightarrow> error + bool" where
  "loss g = (case pacman g of Inl e \<Rightarrow> Inl e | Inr p \<Rightarrow> Inr (p = None))"

definition win :: "gamestate \<Rightarrow> error + bool" where
  "win g =
     (case loss g of
        Inl e \<Rightarrow> Inl e
      | Inr l \<Rightarrow>
          if l then Inr False
          else (case list_arr (dots g) True of
                  Inl e \<Rightarrow> Inl e
                | Inr ds \<Rightarrow> Inr (ds = [])))"

definition gameover :: "gamestate \<Rightarrow> error + bool" where
  "gameover g =
     (case win g of
        Inl e \<Rightarrow> Inl e
      | Inr w \<Rightarrow> if w then Inr True else loss g)"

text \<open>\<^verbatim>\<open>successor\<close>: the move is applied to a copy; an exception leaves no successor.\<close>

definition successor :: "gamestate \<Rightarrow> nat \<Rightarrow> move option \<Rightarrow> error + gamestate" where
  "successor g agent_id mv =
     (case apply_move agent_id mv (copy g) of
        (Some e, _) \<Rightarrow> Inl e
      | (None, g') \<Rightarrow> Inr g')"

text \<open>
  For the proofs: the state of \<^verbatim>\<open>apply_move\<close> when it reaches the wall test of line
  140, for an alive agent at \<open>vec\<close> whose lists are long enough. Facing and position are
  set, the agent's own timer is decremented if it was not zero, and Pacman has paid the
  turn penalty.
\<close>

definition before_wall_test :: "nat \<Rightarrow> move \<Rightarrow> vector \<Rightarrow> gamestate \<Rightarrow> gamestate" where
  "before_wall_test agent_id m vec g =
     g\<lparr>facings := (facings g)[agent_id := m],
       agents := (agents g)[agent_id := Some (vec_add vec (vector m))],
       timers := (if timers g ! agent_id \<noteq> 0
                  then (timers g)[agent_id := timers g ! agent_id - 1] else timers g),
       score := (if agent_id = PACMAN_ID then score g + SCORE_TICK_PENALTY else score g)\<rparr>"

text \<open>
  For the proofs: whether a lookup in a grid of booleans reads as true, which on a
  rectangular grid is the truth value of \<^verbatim>\<open>walls[v]\<close>.
\<close>

definition blocked :: "bool array \<Rightarrow> vector \<Rightarrow> bool" where
  "blocked w v = (contains w v \<and> w ! nat (fst v) ! nat (snd v))"

text \<open>
  For the statement of the encounter claim: what lines 151 to 160 add to the score when
  Pacman arrives on a cell that held \<open>cell\<close>, where \<open>g'\<close> is the state after the move
  (the bonus for the last dot is paid when no dot is left once this one is eaten).
\<close>

definition pickup_reward :: "error + layout_object option \<Rightarrow> gamestate \<Rightarrow> int" where
  "pickup_reward cell g' =
     (if cell = Inr (Some Dot) then
        SCORE_GET_DOT + (if \<forall>c \<in> set (statics g'). Dot \<notin> set c then SCORE_GET_ALL_DOTS else 0)
      else if cell = Inr (Some Pellet) then SCORE_GET_PELLET
      else 0)"

section \<open>Adversarial search\<close>

text \<open>
  The value of an evaluation function is a Python number; the agents compare it with
  \<^verbatim>\<open>float('-inf')\<close> and \<^verbatim>\<open>float('inf')\<close> and do no arithmetic on it. The model is a
  linearly ordered type of finite values with the two infinities added. (A NaN, which
  compares false with everything, is outside the model.)
\<close>

datatype 'a score = NegInf | Fin 'a | PosInf

instantiation score :: (linorder) linorder
begin

fun less_eq_score :: "'a score \<Rightarrow> 'a score \<Rightarrow> bool" where
  "less_eq_score NegInf _ = True"
| "less_eq_score (Fin a) NegInf = False"
| "less_eq_score (Fin a) (Fin b) = (a \<le> b)"
| "less_eq_score (Fin a) PosInf = True"
| "less_eq_score PosInf PosInf = True"
| "less_eq_score PosInf _ = False"

definition less_score :: "'a score \<Rightarrow> 'a score \<Rightarrow> bool" where
  "less_score a b = (a \<le> b \<and> \<not> b \<le> a)"

instance
proof
  fix x y z :: "'a score"
  show "(x < y) = (x \<le> y \<and> \<not> y \<le> x)" by (simp add: less_score_def)
  show "x \<le> x" by (cases x) simp_all
  show "x \<le> y \<Longrightarrow> y \<le> z \<Longrightarrow> x \<le> z" by (cases x; cases y; cases z) simp_all
  show "x \<le> y \<Longrightarrow> y \<le> x \<Longrightarrow> x = y" by (cases x; cases y) simp_all
  show "x \<le> y \<or> y \<le> x" by (cases x; cases y) auto
qed

end

text \<open>\<^verbatim>\<open>max(scores)\<close> and \<^verbatim>\<open>min(scores)\<close> of a list: ValueError on the empty list.\<close>

definition py_max :: "'a::linorder list \<Rightarrow> error + 'a" where
  "py_max xs = (case xs of [] \<Rightarrow> Inl ValueError | x # r \<Rightarrow> Inr (fold max r x))"

definition py_min :: "'a::linorder list \<Rightarrow> error + 'a" where
  "py_min xs = (case xs of [] \<Rightarrow> Inl ValueError | x # r \<Rightarrow> Inr (fold min r x))"

text \<open>
  \<^verbatim>\<open>MinimaxAgent.minimax\<close>, score component. The depth is a natural number (the agents are
  built with a non-negative depth and the recursion stops at \<^verbatim>\<open>depth is 0\<close>).
  \<^verbatim>\<open>list(gstate.legal_moves_id(i))\<close> lists a Python set, in an order the language does
  not fix: \<open>order\<close> is that listing, a parameter. The move returned next to the score is
  drawn by \<^verbatim>\<open>random.choice\<close> among the best ones and is not modelled; the list of
  candidates is never empty, as \<^verbatim>\<open>max\<close> returns one of the scores themselves.
  \<open>minimax_scores\<close> is the list comprehension over the legal actions.
\<close>

function (sequential) minimax :: "(gamestate \<Rightarrow> 'a::linorder score) \<Rightarrow> (move list \<Rightarrow> move list) \<Rightarrow>
                 gamestate \<Rightarrow> nat \<Rightarrow> bool \<Rightarrow> error + 'a score"
  and minimax_scores :: "(gamestate \<Rightarrow> 'a::linorder score) \<Rightarrow> (move list \<Rightarrow> move list) \<Rightarrow>
                 gamestate \<Rightarrow> nat \<Rightarrow> nat \<Rightarrow> bool \<Rightarrow> move list \<Rightarrow> error + 'a score list"
  where
  "minimax evaluate order gstate 0 maximizer = Inr (evaluate gstate)"
| "minimax evaluate order gstate (Suc d) maximizer =
     (case loss gstate of
        Inl e \<Rightarrow> Inl e
      | Inr l \<Rightarrow>
          if l then Inr (evaluate gstate)
          else
            (case win gstate of
               Inl e \<Rightarrow> Inl e
             | Inr w \<Rightarrow>
                 if w then Inr (evaluate gstate)
                 else if maximizer then
                   (case legal_moves_id gstate 0 of
                      Inl e \<Rightarrow> Inl e
                    | Inr legal_actions \<Rightarrow>
                        (case minimax_scores evaluate order gstate 0 (Suc d) False (order legal_actions) of
                           Inl e \<Rightarrow> Inl e
                         | Inr scores \<Rightarrow> py_max scores))
                 else
                   (case legal_moves_id gstate 1 of
                      Inl e \<Rightarrow> Inl e
                    | Inr legal_actions \<Rightarrow>
                        (case minimax_scores evaluate order gstate 1 d True (order legal_actions) of
                           Inl e \<Rightarrow> Inl e
                         | Inr scores \<Rightarrow> py_min scores))))"
| "minimax_scores evaluate order gstate agent_id depth maximizer [] = Inr []"
| "minimax_scores evaluate order gstate agent_id depth maximizer (x # xs) =
     (case successor gstate agent_id (Some x) of
        Inl e \<Rightarrow> Inl e
      | Inr g' \<Rightarrow>
          (case minimax evaluate order g' depth maximizer of
             Inl e \<Rightarrow> Inl e
           | Inr s \<Rightarrow>
               (case minimax_scores evaluate order gstate agent_id depth maximizer xs of
                  Inl e \<Rightarrow> Inl e
                | Inr ss \<Rightarrow> Inr (s # ss))))"
  by pat_completeness auto
termination
  by (relation "measures
        [\<lambda>x. case x of
                Inl (_, _, _, d, b) \<Rightarrow> 2 * (2 * d + (if b then 1 else 0)) + 1
              | Inr (_, _, _, _, d, b, _) \<Rightarrow> 2 * (2 * d + (if b then 1 else 0)) + 2,
         \<lambda>x. case x of Inl _ \<Rightarrow> 0 | Inr (_, _, _, _, _, _, xs) \<Rightarrow> length xs]")
     auto

text \<open>
  \<^verbatim>\<open>AlphabetaAgent.alpha_beta\<close>, score and move. The two \<^verbatim>\<open>for\<close> loops with their
  \<^verbatim>\<open>break\<close> are \<open>max_loop\<close> and \<open>min_loop\<close>, which carry the loop variables
  \<^verbatim>\<open>best_score\<close>, \<^verbatim>\<open>best_action\<close> and the bound that the loop updates. The depth handed
  to \<open>min_loop\<close> is the \<^verbatim>\<open>depth - 1\<close> of its recursive calls.
\<close>

function (sequential) alpha_beta :: "(gamestate \<Rightarrow> 'a::linorder score) \<Rightarrow> (move list \<Rightarrow> move list) \<Rightarrow>
                 gamestate \<Rightarrow> nat \<Rightarrow> bool \<Rightarrow> 'a score \<Rightarrow> 'a score \<Rightarrow> error + ('a score \<times> move)"
  and max_loop :: "(gamestate \<Rightarrow> 'a::linorder score) \<Rightarrow> (move list \<Rightarrow> move list) \<Rightarrow>
                 gamestate \<Rightarrow> nat \<Rightarrow> move list \<Rightarrow> 'a score \<Rightarrow> move \<Rightarrow> 'a score \<Rightarrow> 'a score
                 \<Rightarrow> error + ('a score \<times> move)"
  and min_loop :: "(gamestate \<Rightarrow> 'a::linorder score) \<Rightarrow> (move list \<Rightarrow> move list) \<Rightarrow>
                 gamestate \<Rightarrow> nat \<Rightarrow> move list \<Rightarrow> 'a score \<Rightarrow> move \<Rightarrow> 'a score \<Rightarrow> 'a score
                 \<Rightarrow> error + ('a score \<times> move)"
  where
  "alpha_beta evaluate order gstate 0 maximizer alpha beta = Inr (evaluate gstate, stop)"
| "alpha_beta evaluate order gstate (Suc d) maximizer alpha beta =
     (case loss gstate of
        Inl e \<Rightarrow> Inl e
      | Inr l \<Rightarrow>
          if l then Inr (evaluate gstate, stop)
          else
            (case win gstate of
               Inl e \<Rightarrow> Inl e
             | Inr w \<Rightarrow>
                 if w then Inr (evaluate gstate, stop)
                 else if maximizer then
                   (case legal_moves_id gstate 0 of
                      Inl e \<Rightarrow> Inl e
                    | Inr legal_actions \<Rightarrow>
                        max_loop evaluate order gstate (Suc d) (order legal_actions) NegInf stop alpha beta)
                 else
                   (case legal_moves_id gstate 1 of
                      Inl e \<Rightarrow> Inl e
                    | Inr legal_actions \<Rightarrow>
                        min_loop evaluate order gstate d (order legal_actions) PosInf stop alpha beta)))"
| "max_loop evaluate order gstate depth [] best_score best_action alpha beta =
     Inr (best_score, best_action)"
| "max_loop evaluate order gstate depth (move # rest) best_score best_action alpha beta =
     (case successor gstate 0 (Some move) of
        Inl e \<Rightarrow> Inl e
      | Inr g' \<Rightarrow>
          (case alpha_beta evaluate order g' depth False alpha beta of
             Inl e \<Rightarrow> Inl e
           | Inr r \<Rightarrow>
               (let score = fst r;
                    best_score' = (if score > best_score then score else best_score);
                    best_action' = (if score > best_score then move else best_action);
                    alpha' = max best_score' alpha
                in if beta \<le> alpha' then Inr (best_score', best_action')
                   else max_loop evaluate order gstate depth rest best_score' best_action' alpha' beta)))"
| "min_loop evaluate order gstate depth [] best_score best_action alpha beta =
     Inr (best_score, best_action)"
| "min_loop evaluate order gstate depth (move # rest) best_score best_action alpha beta =
     (case successor gstate 1 (Some move) of
        Inl e \<Rightarrow> Inl e
      | Inr g' \<Rightarrow>
          (case alpha_beta evaluate order g' depth True alpha beta of
             Inl e \<Rightarrow> Inl e
           | Inr r \<Rightarrow>
               (let score = fst r;
                    best_score' = (if score < best_score then score else best_score);
                    best_action' = (if score < best_score then move else best_action);
                    beta' = min best_score' beta
                in if beta' \<le> alpha then Inr (best_score', best_action')
                   else min_loop evaluate order gstate depth rest best_score' best_action' alpha beta')))"
  by pat_completeness auto
termination
  by (relation "measures
        [\<lambda>x. case x of
                Inl (_, _, _, d, b, _, _) \<Rightarrow> 2 * (2 * d + (if b then 1 else 0)) + 1
              | Inr (Inl (_, _, _, d, _, _, _, _, _)) \<Rightarrow> 4 * d + 2
              | Inr (Inr (_, _, _, d, _, _, _, _, _)) \<Rightarrow> 4 * d + 4,
         \<lambda>x. case x of
                Inl _ \<Rightarrow> 0
              | Inr (Inl (_, _, _, _, ms, _, _, _, _)) \<Rightarrow> length ms
              | Inr (Inr (_, _, _, _, ms, _, _, _, _)) \<Rightarrow> length ms]")
     auto

text \<open>
  The gamestates the two agents are made for: a rectangular grid, per-agent lists of equal
  length with a player slot and a first adversary, the adversary alive, and no agent (nor
  the first adversary's start, where a kill sends it) on a cell that reads as a wall. A
  game started by the constructor on a layout with a ghost is such a state, and legal
  moves keep it so.
\<close>

definition playable :: "gamestate \<Rightarrow> bool" where
  "playable g \<longleftrightarrow>
     rectangular (statics g) \<and> 2 \<le> length (agents g) \<and>
     length (starts g) = length (agents g) \<and> length (facings g) = length (agents g) \<and>
     length (timers g) = length (agents g) \<and>
     (case agents g ! 0 of None \<Rightarrow> True | Some v \<Rightarrow> \<not> blocked (walls g) v) \<and>
     (case agents g ! 1 of None \<Rightarrow> False | Some v \<Rightarrow> \<not> blocked (walls g) v) \<and>
     (case starts g ! 1 of None \<Rightarrow> False | Some v \<Rightarrow> \<not> blocked (walls g) v)"

text \<open>
  For the proofs: how the value \<open>v\<close> returned for a node by alpha-beta with the window
  \<open>(alpha, beta)\<close> relates to its minimax value \<open>m\<close>. Inside the window the two are
  equal; outside, \<open>v\<close> lies between the bound that was crossed and \<open>m\<close>.
\<close>

definition agrees :: "'a::linorder \<Rightarrow> 'a \<Rightarrow> 'a \<Rightarrow> 'a \<Rightarrow> bool" where
  "agrees m v alpha beta \<longleftrightarrow>
     (m \<le> alpha \<longrightarrow> m \<le> v \<and> v \<le> alpha) \<and>
     (alpha < m \<and> m < beta \<longrightarrow> v = m) \<and>
     (beta \<le> m \<longrightarrow> beta \<le> v \<and> v \<le> m)"

section \<open>Search representations and search algorithms\<close>

text \<open>
  The capability set that the four search functions use of a
  \<^verbatim>\<open>SearchRepresentation\<close>: the start state, the goal test and the successor function,
  each successor being a state, the list of actions leading to it and their cost. Both
  methods may raise. The goal test of the source also records the order of expansion in
  the representation; the searches never read that record, so the interface shows only
  what the call returns or raises.
\<close>

record ('s, 'a, 'c) representation =
  start :: 's
  is_goal :: "'s \<Rightarrow> error + bool"
  successors :: "'s \<Rightarrow> error + ('s \<times> 'a list \<times> 'c) list"

text \<open>
  The inner \<^verbatim>\<open>for\<close> loop of all four functions: the search nodes it puts into the frontier,
  in the order of the successors, for a node with the given path and cost.
\<close>

definition new_nodes :: "'a list \<Rightarrow> 'c::plus \<Rightarrow> 's set \<Rightarrow> ('s \<times> 'a list \<times> 'c) list
                           \<Rightarrow> ('s \<times> 'a list \<times> 'c) list" where
  "new_nodes path cost explored succs =
     map (\<lambda>n. (fst n, path @ fst (snd n), cost + snd (snd n)))
         (filter (\<lambda>n. fst n \<notin> explored) succs)"

text \<open>
  \<^verbatim>\<open>depthfirst\<close>. The \<^verbatim>\<open>LifoQueue\<close> is a list with its top at the head. A search that
  runs forever has the value None; a search that returns has \<open>Some\<close> of what it returns,
  an exception or the result, which is a path or Python's None.
\<close>

partial_function (option) depthfirst_loop ::
  "('s, 'a, 'c::plus) representation \<Rightarrow> ('s \<times> 'a list \<times> 'c) list \<Rightarrow> 's set
     \<Rightarrow> (error + 'a list option) option" where
  "depthfirst_loop representation frontier explored =
     (case frontier of
        [] \<Rightarrow> Some (Inr None)
      | node # rest \<Rightarrow>
          if fst node \<in> explored then depthfirst_loop representation rest explored
          else
            (case is_goal representation (fst node) of
               Inl e \<Rightarrow> Some (Inl e)
             | Inr goal_reached \<Rightarrow>
                 if goal_reached then Some (Inr (Some (fst (snd node))))
                 else
                   (case successors representation (fst node) of
                      Inl e \<Rightarrow> Some (Inl e)
                    | Inr succs \<Rightarrow>
                        depthfirst_loop representation
                          (rev (new_nodes (fst (snd node)) (snd (snd node))
                                  (insert (fst node) explored) succs) @ rest)
                          (insert (fst node) explored))))"

declare depthfirst_loop.simps [code]

definition depthfirst :: "('s, 'a, 'c::{plus,zero}) representation \<Rightarrow> (error + 'a list option) option" where
  "depthfirst representation = depthfirst_loop representation [(start representation, [], 0)] {}"

text \<open>\<^verbatim>\<open>breadthfirst\<close>. The \<^verbatim>\<open>Queue\<close> is a list: \<^verbatim>\<open>get\<close> takes the head, \<^verbatim>\<open>put\<close> appends.\<close>

partial_function (option) breadthfirst_loop ::
  "('s, 'a, 'c::plus) representation \<Rightarrow> ('s \<times> 'a list \<times> 'c) list \<Rightarrow> 's set
     \<Rightarrow> (error + 'a list option) option" where
  "breadthfirst_loop representation frontier explored =
     (case frontier of
        [] \<Rightarrow> Some (Inr None)
      | node # rest \<Rightarrow>
          if fst node \<in> explored then breadthfirst_loop representation rest explored
          else
            (case is_goal representation (fst node) of
               Inl e \<Rightarrow> Some (Inl e)
             | Inr goal_reached \<Rightarrow>
                 if goal_reached then Some (Inr (Some (fst (snd node))))
                 else
                   (case successors representation (fst node) of
                      Inl e \<Rightarrow> Some (Inl e)
                    | Inr succs \<Rightarrow>
                        breadthfirst_loop representation
                          (rest @ new_nodes (fst (snd node)) (snd (snd node))
                                    (insert (fst node) explored) succs)
                          (insert (fst node) explored))))"

declare breadthfirst_loop.simps [code]

definition breadthfirst :: "('s, 'a, 'c::{plus,zero}) representation \<Rightarrow> (error + 'a list option) option" where
  "breadthfirst representation = breadthfirst_loop representation [(start representation, [], 0)] {}"

text \<open>
  \<^verbatim>\<open>uniformcost\<close>. The \<^verbatim>\<open>PriorityQueue\<close> holds tuples of a cost and a search node and
  \<^verbatim>\<open>get\<close> removes a least tuple in Python's order of tuples and lists, the lexicographic
  one. States and actions are therefore of ordered types here (Python raises TypeError on
  a tie between states that cannot be compared).
\<close>

definition pq_get :: "'e::linorder list \<Rightarrow> 'e \<times> 'e list" where
  "pq_get q = (Min (set q), remove1 (Min (set q)) q)"

partial_function (option) uniformcost_loop ::
  "('s::linorder, 'a::linorder, 'c::{plus,linorder}) representation
     \<Rightarrow> ('c \<times> 's \<times> 'a list \<times> 'c) list \<Rightarrow> 's set \<Rightarrow> (error + 'a list option) option" where
  "uniformcost_loop representation frontier explored =
     (if frontier = [] then Some (Inr None)
      else
        (let node = snd (fst (pq_get frontier)); rest = snd (pq_get frontier)
         in if fst node \<in> explored then uniformcost_loop representation rest explored
            else
              (case is_goal representation (fst node) of
                 Inl e \<Rightarrow> Some (Inl e)
               | Inr goal_reached \<Rightarrow>
                   if goal_reached then Some (Inr (Some (fst (snd node))))
                   else
                     (case successors representation (fst node) of
                        Inl e \<Rightarrow> Some (Inl e)
                      | Inr succs \<Rightarrow>
                          uniformcost_loop representation
                            (rest @ map (\<lambda>n. (snd (snd n), n))
                                      (new_nodes (fst (snd node)) (snd (snd node))
                                         (insert (fst node) explored) succs))
                            (insert (fst node) explored)))))"

declare uniformcost_loop.simps [code]

definition uniformcost ::
  "('s::linorder, 'a::linorder, 'c::{plus,zero,linorder}) representation
     \<Rightarrow> (error + 'a list option) option" where
  "uniformcost representation =
     uniformcost_loop representation [(0, (start representation, [], 0))] {}"

text \<open>
  \<^verbatim>\<open>astar\<close>. \<^verbatim>\<open>util.PriorityFunctionQueue\<close> files every item under a fresh identifier and
  orders the pairs of priority and identifier; \<^verbatim>\<open>get\<close> returns the item of the least
  pair. The queue is the list of those pairs with their items, and the next identifier.
  The priority of a search node is the heuristic of its state plus its cost. The goal is
  tested before the state is added to the explored set.
\<close>

definition pfq_get :: "(('p::linorder \<times> nat) \<times> 'n) list \<Rightarrow> 'n \<times> (('p \<times> nat) \<times> 'n) list" where
  "pfq_get q =
     (let k = Min (set (map fst q)); entry = hd (filter (\<lambda>e. fst e = k) q)
      in (snd entry, remove1 entry q))"

fun pfq_put_all :: "('n \<Rightarrow> 'p) \<Rightarrow> (('p \<times> nat) \<times> 'n) list \<times> nat \<Rightarrow> 'n list
                      \<Rightarrow> (('p \<times> nat) \<times> 'n) list \<times> nat" where
  "pfq_put_all priority_fn (q, next_id) [] = (q, next_id)"
| "pfq_put_all priority_fn (q, next_id) (item # items) =
     pfq_put_all priority_fn (q @ [((priority_fn item, next_id), item)], next_id + 1) items"

partial_function (option) astar_loop ::
  "('s, 'a, 'c::{plus,linorder}) representation \<Rightarrow> ('s \<Rightarrow> ('s, 'a, 'c) representation \<Rightarrow> 'c)
     \<Rightarrow> (('c \<times> nat) \<times> 's \<times> 'a list \<times> 'c) list \<times> nat \<Rightarrow> 's set
     \<Rightarrow> (error + 'a list option) option" where
  "astar_loop representation heuristic frontier explored =
     (if fst frontier = [] then Some (Inr None)
      else
        (let node = fst (pfq_get (fst frontier)); rest = (snd (pfq_get (fst frontier)), snd frontier)
         in if fst node \<in> explored then astar_loop representation heuristic rest explored
            else
              (case is_goal representation (fst node) of
                 Inl e \<Rightarrow> Some (Inl e)
               | Inr goal_reached \<Rightarrow>
                   if goal_reached then Some (Inr (Some (fst (snd node))))
                   else
                     (case successors representation (fst node) of
                        Inl e \<Rightarrow> Some (Inl e)
                      | Inr succs \<Rightarrow>
                          astar_loop representation heuristic
                            (pfq_put_all (\<lambda>n. heuristic (fst n) representation + snd (snd n)) rest
                               (new_nodes (fst (snd node)) (snd (snd node))
                                  (insert (fst node) explored) succs))
                            (insert (fst node) explored)))))"

declare astar_loop.simps [code]

definition astar ::
  "('s, 'a, 'c::{plus,zero,linorder}) representation \<Rightarrow> ('s \<Rightarrow> ('s, 'a, 'c) representation \<Rightarrow> 'c)
     \<Rightarrow> (error + 'a list option) option" where
  "astar representation heuristic =
     astar_loop representation heuristic
       (pfq_put_all (\<lambda>n. heuristic (fst n) representation + snd (snd n)) ([], 0)
          [(start representation, [], 0)]) {}"

text \<open>
  A search space in which the search cannot succeed: a finite set of states that holds the
  start and the successors of each of its states, and on which the goal test returns
  False (and neither method raises). The states reachable from the start are the least
  such set.
\<close>

definition closed_without_goal :: "('s, 'a, 'c) representation \<Rightarrow> 's set \<Rightarrow> bool" where
  "closed_without_goal representation S \<longleftrightarrow>
     finite S \<and> start representation \<in> S \<and>
     (\<forall>s \<in> S. is_goal representation s = Inr False \<and>
               (\<exists>succs. successors representation s = Inr succs \<and> (\<forall>n \<in> set succs. fst n \<in> S)))"

text \<open>\<^verbatim>\<open>search.null\<close>, the heuristic that is always 0.\<close>

definition null :: "'s \<Rightarrow> ('s, 'a, 'c::zero) representation \<Rightarrow> 'c" where
  "null state representation = 0"

text \<open>
  \<^verbatim>\<open>Move.__lt__\<close> compares the vectors of two moves, as Python tuples; a move is equal
  only to itself. This is the order in which a priority queue compares paths.
\<close>

instantiation move :: linorder
begin

definition less_eq_move :: "move \<Rightarrow> move \<Rightarrow> bool" where
  "less_eq_move a b = (vector a \<le> vector b)"

definition less_move :: "move \<Rightarrow> move \<Rightarrow> bool" where
  "less_move a b = (vector a < vector b)"

instance
proof
  fix x y z :: move
  show "(x < y) = (x \<le> y \<and> \<not> y \<le> x)"
    by (auto simp: less_move_def less_eq_move_def)
  show "x \<le> x" by (simp add: less_eq_move_def)
  show "x \<le> y \<Longrightarrow> y \<le> z \<Longrightarrow> x \<le> z" by (simp add: less_eq_move_def)
  show "x \<le> y \<Longrightarrow> y \<le> x \<Longrightarrow> x = y"
    by (cases x; cases y) (simp_all add: less_eq_move_def)
  show "x \<le> y \<or> y \<le> x" by (auto simp: less_eq_move_def)
qed

end

text \<open>
  \<^verbatim>\<open>PositionSearchRepresentation\<close>, built on a gamestate whose Pacman stands at
  \<open>start_state\<close>. It keeps \<^verbatim>\<open>gstate.walls\<close> and, for the expansion order, a grid of the
  shape of the layout. The goal test first writes the expansion count into that grid at
  the state, with \<^verbatim>\<open>__setitem__\<close>, and then compares the state with the goal; whether the
  write raises depends on the shape of the grid alone, not on what was written before.
\<close>

definition position_is_goal :: "vector \<Rightarrow> vector \<Rightarrow> vector \<Rightarrow> error + bool" where
  "position_is_goal shp goal state =
     (case setitem (replicate (nat (fst shp)) (replicate (nat (snd shp)) (None :: nat option)))
             state (Some 0) of
        Inl e \<Rightarrow> Inl e
      | Inr _ \<Rightarrow> Inr (state = goal))"

fun position_successors_loop ::
  "bool array \<Rightarrow> (vector \<Rightarrow> 'c) \<Rightarrow> vector \<Rightarrow> move list \<Rightarrow> error + (vector \<times> move list \<times> 'c) list" where
  "position_successors_loop wls cost_fn state [] = Inr []"
| "position_successors_loop wls cost_fn state (m # ms) =
     (case getitem wls (vec_add state (vector m)) of
        Inl e \<Rightarrow> Inl e
      | Inr w \<Rightarrow>
          (case position_successors_loop wls cost_fn state ms of
             Inl e \<Rightarrow> Inl e
           | Inr r \<Rightarrow>
               Inr (if \<not> truthy w
                    then (vec_add state (vector m), [m], cost_fn (vec_add state (vector m))) # r
                    else r)))"

definition position_successors ::
  "bool array \<Rightarrow> (vector \<Rightarrow> 'c) \<Rightarrow> vector \<Rightarrow> error + (vector \<times> move list \<times> 'c) list" where
  "position_successors wls cost_fn state = position_successors_loop wls cost_fn state no_stop"

definition position_search ::
  "gamestate \<Rightarrow> vector \<Rightarrow> vector \<Rightarrow> (vector \<Rightarrow> 'c) \<Rightarrow> (vector, move, 'c) representation" where
  "position_search gstate start_state goal cost_fn =
     \<lparr>start = start_state,
      is_goal = position_is_goal (shape (statics gstate)) goal,
      successors = position_successors (walls gstate) cost_fn\<rparr>"

text \<open>
  \<^verbatim>\<open>standard_pathcost\<close>: the moves are replayed from the start; a position that reads as
  a wall gives infinity, otherwise the cost function is applied to the vector of each move
  (as the source has it) and the results are added up from 0.
\<close>

fun standard_pathcost_loop ::
  "move list \<Rightarrow> vector \<Rightarrow> 'c::plus \<Rightarrow> bool array \<Rightarrow> (vector \<Rightarrow> 'c) \<Rightarrow> error + 'c score" where
  "standard_pathcost_loop [] vec cost wls cost_fn = Inr (Fin cost)"
| "standard_pathcost_loop (direction # path) vec cost wls cost_fn =
     (case getitem wls (vec_add vec (vector direction)) of
        Inl e \<Rightarrow> Inl e
      | Inr w \<Rightarrow>
          if truthy w then Inr PosInf
          else standard_pathcost_loop path (vec_add vec (vector direction))
                 (cost + cost_fn (vector direction)) wls cost_fn)"

definition standard_pathcost ::
  "move list \<Rightarrow> vector \<Rightarrow> bool array \<Rightarrow> (vector \<Rightarrow> 'c::{plus,zero}) \<Rightarrow> error + 'c score" where
  "standard_pathcost path start_state wls cost_fn = standard_pathcost_loop path start_state 0 wls cost_fn"

text \<open>
  For the statements about paths: the position a list of moves leads to, and whether
  none of the positions it passes reads as a wall.
\<close>

fun replay :: "vector \<Rightarrow> move list \<Rightarrow> vector" where
  "replay vec [] = vec"
| "replay vec (m # ms) = replay (vec_add vec (vector m)) ms"

fun wall_free :: "bool array \<Rightarrow> vector \<Rightarrow> move list \<Rightarrow> bool" where
  "wall_free wls vec [] = True"
| "wall_free wls vec (m # ms) =
     (\<not> blocked wls (vec_add vec (vector m)) \<and> wall_free wls (vec_add vec (vector m)) ms)"

text \<open>
  A region of the maze that a search from \<open>start_state\<close> cannot leave: it holds the start,
  lies inside the grid, and holds every neighbour of its cells that does not read as a
  wall. A maze enclosed by walls has such a region, the cells reachable from the start.
\<close>

definition enclosed_region :: "gamestate \<Rightarrow> vector \<Rightarrow> vector set \<Rightarrow> bool" where
  "enclosed_region gstate start_state S \<longleftrightarrow>
     start_state \<in> S \<and>
     (\<forall>v \<in> S. contains (statics gstate) v \<and>
        (\<forall>m \<in> set no_stop. \<not> blocked (walls gstate) (vec_add v (vector m))
                              \<longrightarrow> vec_add v (vector m) \<in> S))"

text \<open>
  For the proofs: what holds of the frontier and the explored set each time
  \<^verbatim>\<open>breadthfirst\<close> is at the head of its loop on a position search. Every node carries
  a wall-free path of real moves from the start to its state; the paths in the queue are
  sorted by length and differ in length by at most one; every unexplored free neighbour
  of an explored cell is in the queue, with a path at most one longer than any path to
  that cell; and the start is explored or in the queue with the empty path.
\<close>

definition bfs_inv :: "bool array \<Rightarrow> vector \<Rightarrow> vector set \<Rightarrow> (vector \<times> move list \<times> 'c) list
                         \<Rightarrow> vector set \<Rightarrow> bool" where
  "bfs_inv wls start_state S frontier explored \<longleftrightarrow>
     (\<forall>n \<in> set frontier. replay start_state (fst (snd n)) = fst n \<and>
          wall_free wls start_state (fst (snd n)) \<and> stop \<notin> set (fst (snd n)) \<and> fst n \<in> S) \<and>
     sorted (map (\<lambda>n. length (fst (snd n))) frontier) \<and>
     (\<forall>n \<in> set frontier. \<forall>n' \<in> set frontier. length (fst (snd n')) \<le> length (fst (snd n)) + 1) \<and>
     (\<forall>u \<in> explored. \<forall>m \<in> set no_stop.
          \<not> blocked wls (vec_add u (vector m)) \<longrightarrow> vec_add u (vector m) \<notin> explored \<longrightarrow>
          (\<forall>q. stop \<notin> set q \<and> wall_free wls start_state q \<and> replay start_state q = u \<longrightarrow>
               (\<exists>n \<in> set frontier. fst n = vec_add u (vector m) \<and>
                                     length (fst (snd n)) \<le> length q + 1))) \<and>
     (start_state \<in> explored \<or> (\<exists>n \<in> set frontier. fst n = start_state \<and> fst (snd n) = [])) \<and>
     explored \<subseteq> S"

section \<open>Objects, references and copies\<close>

text \<open>
  Whether a method leaves its receiver alone depends on which objects are shared, so the
  lists of the program are objects here: the heap is the list of all objects allocated so
  far and a reference is an index into it; a new object goes to the end. A gamestate
  object holds references to its grid (the list of the grid's columns, each column a list
  object of its own) and to its four per-agent lists, and holds its score and tick. A
  position representation holds a reference to its walls grid, a grid of booleans with
  columns of its own (the \<^verbatim>\<open>_array\<close> of the indicator array), its start, its goal and its
  cost function. Indicator and coordinate memos are derived data and are not objects of
  the model.
\<close>

type_synonym ref = nat

datatype 'c object =
    Cells "layout_object list"
  | Flags "bool list"
  | Columns "ref list"
  | Positions "vector option list"
  | Facings "move list"
  | Timers "int list"
  | Gamestate_object ref ref ref ref ref int int
  | Representation_object ref vector vector "vector \<Rightarrow> 'c"

type_synonym 'c heap = "'c object list"

definition lookup :: "'c heap \<Rightarrow> ref \<Rightarrow> 'c object option" where
  "lookup h r = (if r < length h then Some (h ! r) else None)"

definition cells_at :: "'c heap \<Rightarrow> ref \<Rightarrow> layout_object list option" where
  "cells_at h r = (case lookup h r of Some (Cells cs) \<Rightarrow> Some cs | _ \<Rightarrow> None)"

definition flags_at :: "'c heap \<Rightarrow> ref \<Rightarrow> bool list option" where
  "flags_at h r = (case lookup h r of Some (Flags bs) \<Rightarrow> Some bs | _ \<Rightarrow> None)"

text \<open>Reading a grid, and a whole gamestate, through the references (None: no such objects).\<close>

definition load_grid :: "'c heap \<Rightarrow> ref \<Rightarrow> layout_object array option" where
  "load_grid h r =
     (case lookup h r of
        Some (Columns cols) \<Rightarrow>
          if None \<in> set (map (cells_at h) cols) then None
          else Some (map (\<lambda>c. the (cells_at h c)) cols)
      | _ \<Rightarrow> None)"

definition load_flags :: "'c heap \<Rightarrow> ref \<Rightarrow> bool array option" where
  "load_flags h r =
     (case lookup h r of
        Some (Columns cols) \<Rightarrow>
          if None \<in> set (map (flags_at h) cols) then None
          else Some (map (\<lambda>c. the (flags_at h c)) cols)
      | _ \<Rightarrow> None)"

definition load_gamestate :: "'c heap \<Rightarrow> ref \<Rightarrow> gamestate option" where
  "load_gamestate h g =
     (case lookup h g of
        Some (Gamestate_object sr ar str fr tr sc tk) \<Rightarrow>
          (case (load_grid h sr, lookup h ar, lookup h str, lookup h fr, lookup h tr) of
             (Some a, Some (Positions ag), Some (Positions st), Some (Facings fc), Some (Timers tm)) \<Rightarrow>
               Some \<lparr>statics = a, agents = ag, starts = st, facings = fc, timers = tm,
                     score = sc, tick = tk\<rparr>
           | _ \<Rightarrow> None)
      | _ \<Rightarrow> None)"

text \<open>
  The lists of a gamestate object are its own when no two of its references (to itself,
  its grid, its columns, its four lists) are the same. The constructor and \<^verbatim>\<open>copy\<close> build
  gamestates like that.
\<close>

definition own_lists :: "'c heap \<Rightarrow> ref \<Rightarrow> bool" where
  "own_lists h g =
     (case lookup h g of
        Some (Gamestate_object sr ar str fr tr sc tk) \<Rightarrow>
          (case lookup h sr of
             Some (Columns cols) \<Rightarrow> distinct (g # sr # ar # str # fr # tr # cols)
           | _ \<Rightarrow> False)
      | _ \<Rightarrow> False)"

text \<open>
  \<^verbatim>\<open>Gamestate.copy\<close>: a new gamestate object with a new grid whose columns are copies of
  the columns, and with copies of the four lists.
\<close>

definition copy_h :: "'c heap \<Rightarrow> ref \<Rightarrow> (ref \<times> 'c heap) option" where
  "copy_h h g =
     (case load_gamestate h g of
        None \<Rightarrow> None
      | Some gs \<Rightarrow>
          (let n = length h; k = length (statics gs)
           in Some (n + k + 5,
                h @ map Cells (statics gs)
                  @ [Columns [n ..< n + k], Positions (agents gs), Positions (starts gs),
                     Facings (facings gs), Timers (timers gs),
                     Gamestate_object (n + k) (n + k + 1) (n + k + 2) (n + k + 3) (n + k + 4)
                        (score gs) (tick gs)])))"

text \<open>
  \<^verbatim>\<open>apply_move\<close> assigns into the lists of its receiver in place and rebinds none of
  them. On a gamestate object whose lists are its own this is: read the fields, run the
  method, and write each list back into the object it came from.
\<close>

fun store_columns :: "'c heap \<Rightarrow> ref list \<Rightarrow> layout_object list list \<Rightarrow> 'c heap" where
  "store_columns h (c # cs) (x # xs) = store_columns (h[c := Cells x]) cs xs"
| "store_columns h _ _ = h"

definition store_gamestate :: "'c heap \<Rightarrow> ref \<Rightarrow> gamestate \<Rightarrow> 'c heap" where
  "store_gamestate h g gs =
     (case lookup h g of
        Some (Gamestate_object sr ar str fr tr sc tk) \<Rightarrow>
          (case lookup h sr of
             Some (Columns cols) \<Rightarrow>
               (store_columns h cols (statics gs))
                 [ar := Positions (agents gs), fr := Facings (facings gs), tr := Timers (timers gs),
                  g := Gamestate_object sr ar str fr tr (score gs) (tick gs)]
           | _ \<Rightarrow> h)
      | _ \<Rightarrow> h)"

definition apply_move_h :: "'c heap \<Rightarrow> ref \<Rightarrow> nat \<Rightarrow> move option \<Rightarrow> (error option \<times> 'c heap) option" where
  "apply_move_h h g agent_id mv =
     (case load_gamestate h g of
        None \<Rightarrow> None
      | Some gs \<Rightarrow>
          if own_lists h g
          then Some (fst (apply_move agent_id mv gs), store_gamestate h g (snd (apply_move agent_id mv gs)))
          else None)"

text \<open>\<^verbatim>\<open>successor\<close> and \<^verbatim>\<open>successors\<close> on the heap: the result is a reference, or references.\<close>

definition successor_h :: "'c heap \<Rightarrow> ref \<Rightarrow> nat \<Rightarrow> move option \<Rightarrow> ((error + ref) \<times> 'c heap) option" where
  "successor_h h g agent_id mv =
     (case copy_h h g of
        None \<Rightarrow> None
      | Some (c, h1) \<Rightarrow>
          (case apply_move_h h1 c agent_id mv of
             None \<Rightarrow> None
           | Some (None, h2) \<Rightarrow> Some (Inr c, h2)
           | Some (Some e, h2) \<Rightarrow> Some (Inl e, h2)))"

fun successors_loop :: "'c heap \<Rightarrow> ref \<Rightarrow> nat \<Rightarrow> move list \<Rightarrow> ((error + ref list) \<times> 'c heap) option" where
  "successors_loop h g agent_id [] = Some (Inr [], h)"
| "successors_loop h g agent_id (m # ms) =
     (case successor_h h g agent_id (Some m) of
        None \<Rightarrow> None
      | Some (Inl e, h1) \<Rightarrow> Some (Inl e, h1)
      | Some (Inr c, h1) \<Rightarrow>
          (case successors_loop h1 g agent_id ms of
             None \<Rightarrow> None
           | Some (Inl e, h2) \<Rightarrow> Some (Inl e, h2)
           | Some (Inr cs, h2) \<Rightarrow> Some (Inr (c # cs), h2)))"

definition successors_h ::
  "(move list \<Rightarrow> move list) \<Rightarrow> 'c heap \<Rightarrow> ref \<Rightarrow> nat \<Rightarrow> ((error + ref list) \<times> 'c heap) option" where
  "successors_h order h g agent_id =
     (case load_gamestate h g of
        None \<Rightarrow> None
      | Some gs \<Rightarrow>
          (case legal_moves_id gs agent_id of
             Inl e \<Rightarrow> Some (Inl e, h)
           | Inr moves \<Rightarrow> successors_loop h g agent_id (order moves)))"

text \<open>
  The methods \<^verbatim>\<open>successors\<close> and \<^verbatim>\<open>pathcost\<close> of a position representation object:
  they read the walls grid of the representation and return the heap they were given.
\<close>

definition position_successors_h ::
  "'c heap \<Rightarrow> ref \<Rightarrow> vector \<Rightarrow> ((error + (vector \<times> move list \<times> 'c) list) \<times> 'c heap) option" where
  "position_successors_h h r state =
     (case lookup h r of
        Some (Representation_object wr start_state goal cost_fn) \<Rightarrow>
          (case load_flags h wr of
             None \<Rightarrow> None
           | Some wls \<Rightarrow> Some (position_successors wls cost_fn state, h))
      | _ \<Rightarrow> None)"

definition position_pathcost_h ::
  "'c::{plus,zero} heap \<Rightarrow> ref \<Rightarrow> move list \<Rightarrow> ((error + 'c score) \<times> 'c heap) option" where
  "position_pathcost_h h r path =
     (case lookup h r of
        Some (Representation_object wr start_state goal cost_fn) \<Rightarrow>
          (case load_flags h wr of
             None \<Rightarrow> None
           | Some wls \<Rightarrow> Some (standard_pathcost path start_state wls cost_fn, h))
      | _ \<Rightarrow> None)"

text \<open>For the proofs: the references a gamestate object writes through.\<close>

definition refs :: "'c heap \<Rightarrow> ref \<Rightarrow> ref list" where
  "refs h g =
     (case lookup h g of
        Some (Gamestate_object sr ar str fr tr sc tk) \<Rightarrow>
          (case lookup h sr of
             Some (Columns cols) \<Rightarrow> g # sr # ar # str # fr # tr # cols
           | _ \<Rightarrow> [])
      | _ \<Rightarrow> [])"


section \<open>Round trips and out-of-bounds lookups\<close>

lemma min_len_uniform:
  assumes "xss \<noteq> []" and "\<forall>c \<in> set xss. length c = h"
  shows "min_len xss = h"
proof -
  have fold_const: "fold (\<lambda>d n. min (length d) n) cs h = h" if "\<forall>c \<in> set cs. length c = h" for cs :: "'a list list"
    using that by (induction cs) auto
  from assms obtain c cs where xss: "xss = c # cs" by (cases xss) auto
  with assms(2) have "length c = h" and "\<forall>d \<in> set cs. length d = h" by auto
  then show ?thesis by (simp add: min_len_def xss fold_const)
qed

lemma length_zip_star [simp]: "length (zip_star xss) = min_len xss"
  by (simp add: zip_star_def)

lemma zip_star_zip_star:
  assumes ne: "xss \<noteq> []" and len: "\<forall>c \<in> set xss. length c = h" and h: "0 < h"
  shows "zip_star (zip_star xss) = xss"
proof -
  have m: "min_len xss = h" using ne len by (rule min_len_uniform)
  have rows: "\<forall>r \<in> set (zip_star xss). length r = length xss"
    by (auto simp: zip_star_def)
  have ne': "zip_star xss \<noteq> []" using h m by (auto simp: zip_star_def)
  have m': "min_len (zip_star xss) = length xss" using ne' rows by (rule min_len_uniform)
  show ?thesis
  proof (rule nth_equalityI)
    show "length (zip_star (zip_star xss)) = length xss" by (simp add: m')
  next
    fix j assume "j < length (zip_star (zip_star xss))"
    then have j: "j < length xss" by (simp add: m')
    then have lj: "length (xss ! j) = h" using len by simp
    have "zip_star (zip_star xss) ! j = map (\<lambda>r. r ! j) (zip_star xss)"
      using j by (simp add: zip_star_def[of "zip_star xss"] m')
    also have "\<dots> = map (\<lambda>i. xss ! j ! i) [0..<h]"
      using j by (simp add: zip_star_def[of xss] m)
    also have "\<dots> = xss ! j"
      using map_nth[of "xss ! j"] lj by simp
    finally show "zip_star (zip_star xss) ! j = xss ! j" .
  qed
qed

lemma opposite_cases:
  "opposite up = Inr down" "opposite down = Inr up" "opposite right = Inr left"
  "opposite left = Inr right" "opposite stop = Inr stop"
  by (simp_all add: opposite_def index_def by_index_def py_get_def Move_def)

lemma mirror_ver_mirror_ver:
  assumes ne: "a \<noteq> []" and len: "\<forall>c \<in> set a. length c = h" and h: "0 < h"
  shows "mirror_ver (mirror_ver a) = a"
proof -
  have m: "min_len a = h" using ne len by (rule min_len_uniform)
  let ?t = "zip_star a"
  have tne: "?t \<noteq> []" using h m by (auto simp: zip_star_def)
  have trows: "\<forall>r \<in> set ?t. length r = length a" by (auto simp: zip_star_def)
  have w: "0 < length a" using ne by simp
  have rne: "rev ?t \<noteq> []" using tne by simp
  have rrows: "\<forall>r \<in> set (rev ?t). length r = length a" using trows by simp
  have "zip_star (zip_star (rev ?t)) = rev ?t"
    using rne rrows w by (rule zip_star_zip_star)
  then have "mirror_ver (mirror_ver a) = zip_star (rev (rev ?t))"
    by (simp add: mirror_ver_def transpose_arr_def mirror_hor_def)
  also have "\<dots> = a" using zip_star_zip_star[OF ne len h] by simp
  finally show ?thesis .
qed

lemma rectangular_uniform: "rectangular a \<Longrightarrow> \<forall>c \<in> set a. length c = length (hd a)"
  by (simp add: rectangular_def)

text \<open>
  Claim C7, as the code has it. Every move is the opposite of its opposite. Transposing
  twice and mirroring vertically twice give back an array that is cell for cell equal to
  the original one, for every rectangular array that has no column at all or whose columns
  are not empty. (An array of empty columns is lost by \<^verbatim>\<open>zip\<close>: see the counterexample.)
\<close>

theorem roundtrip_laws:
  "(\<forall>m. \<exists>m'. opposite m = Inr m' \<and> opposite m' = Inr m) \<and>
   (\<forall>a :: 'a array. rectangular a \<and> (a = [] \<or> hd a \<noteq> []) \<longrightarrow>
        array_eq (transpose_arr (transpose_arr a)) a \<and> array_eq (mirror_ver (mirror_ver a)) a)"
proof (intro conjI allI impI)
  fix m show "\<exists>m'. opposite m = Inr m' \<and> opposite m' = Inr m"
    by (cases m) (simp_all add: opposite_cases)
next
  fix a :: "'a array" assume a: "rectangular a \<and> (a = [] \<or> hd a \<noteq> [])"
  show "array_eq (transpose_arr (transpose_arr a)) a"
  proof (cases "a = []")
    case True
    then show ?thesis by (simp add: array_eq_def transpose_arr_def zip_star_def min_len_def)
  next
    case False
    with a have "0 < length (hd a)" by simp
    with False a show ?thesis
      by (simp add: array_eq_def transpose_arr_def zip_star_zip_star[OF False rectangular_uniform])
  qed
next
  fix a :: "'a array" assume a: "rectangular a \<and> (a = [] \<or> hd a \<noteq> [])"
  show "array_eq (mirror_ver (mirror_ver a)) a"
  proof (cases "a = []")
    case True
    then show ?thesis
      by (simp add: array_eq_def mirror_ver_def mirror_hor_def transpose_arr_def zip_star_def min_len_def)
  next
    case False
    with a have "0 < length (hd a)" by simp
    with False a show ?thesis
      by (simp add: array_eq_def mirror_ver_mirror_ver[OF False rectangular_uniform])
  qed
qed

text \<open>The laws at a two by two array and at the move up.\<close>

theorem roundtrip_laws_witness:
  "rectangular [[Dot, Wall], [Empty, Pellet]] \<and> hd [[Dot, Wall], [Empty, Pellet]] \<noteq> [] \<and>
   array_eq (transpose_arr (transpose_arr [[Dot, Wall], [Empty, Pellet]])) [[Dot, Wall], [Empty, Pellet]] \<and>
   array_eq (mirror_ver (mirror_ver [[Dot, Wall], [Empty, Pellet]])) [[Dot, Wall], [Empty, Pellet]] \<and>
   opposite up = Inr down \<and> opposite down = Inr up"
proof -
  let ?a = "[[Dot, Wall], [Empty, Pellet]]"
  have r: "rectangular ?a \<and> (?a = [] \<or> hd ?a \<noteq> [])"
    by (simp add: rectangular_def)
  have "array_eq (transpose_arr (transpose_arr ?a)) ?a \<and> array_eq (mirror_ver (mirror_ver ?a)) ?a"
    using conjunct2[OF roundtrip_laws, THEN spec, THEN mp, OF r] .
  moreover have "opposite up = Inr down \<and> opposite down = Inr up"
    using conjunct1[OF roundtrip_laws, THEN spec, of up]
    by (simp add: opposite_def index_def by_index_def py_get_def Move_def)
  ultimately show ?thesis using r by simp
qed

text \<open>
  The array with one column of height zero is rectangular; its transpose has no column,
  and neither has the transpose of that. The same happens with the vertical mirror.
\<close>

theorem roundtrip_counterexample:
  "rectangular [[] :: layout_object list] \<and>
   \<not> array_eq (transpose_arr (transpose_arr [[] :: layout_object list])) [[]] \<and>
   \<not> array_eq (mirror_ver (mirror_ver [[] :: layout_object list])) [[]]"
  by (simp add: rectangular_def array_eq_def transpose_arr_def zip_star_def min_len_def mirror_ver_def mirror_hor_def)

lemma contains_shape:
  "contains a v = (0 \<le> fst v \<and> fst v < fst (shape a) \<and> 0 \<le> snd v \<and> snd v < snd (shape a))"
  by (auto simp: contains_def shape_def split: list.splits)

lemma shape_indicate [simp]: "shape (indicate a value) = shape a"
  by (simp add: shape_def indicate_def map_2d_def split: list.splits)

text \<open>
  Claim C8. A lookup at a 2-tuple outside the bounds of the array, negative coordinates
  included, raises nothing and returns None; on an indicator view the result is falsy.
\<close>

theorem getitem_out_of_bounds:
  "fst v < 0 \<or> fst (shape a) \<le> fst v \<or> snd v < 0 \<or> snd (shape a) \<le> snd v \<Longrightarrow>
     getitem a v = Inr None \<and>
     (\<exists>r. getitem (indicate a value) v = Inr r \<and> \<not> truthy r)"
  by (auto simp: getitem_def contains_shape)

text \<open>Two lookups outside a two by two array, one of them at a negative coordinate.\<close>

theorem getitem_out_of_bounds_witness:
  "shape [[Dot, Wall], [Empty, Pellet]] = (2, 2) \<and>
   getitem [[Dot, Wall], [Empty, Pellet]] (-1, 0) = Inr None \<and>
   getitem [[Dot, Wall], [Empty, Pellet]] (1, 2) = Inr None \<and>
   (\<exists>r. getitem (indicate [[Dot, Wall], [Empty, Pellet]] Wall) (-1, 0) = Inr r \<and> \<not> truthy r)"
  using getitem_out_of_bounds[of "(-1, 0)" "[[Dot, Wall], [Empty, Pellet]]" Wall]
        getitem_out_of_bounds[of "(1, 2)" "[[Dot, Wall], [Empty, Pellet]]" Wall]
  by (simp add: shape_def)

section \<open>Grids of a gamestate\<close>

lemma rectangular_indicate [simp]: "rectangular (indicate a value) = rectangular a"
  by (cases a) (auto simp: rectangular_def indicate_def map_2d_def)

lemma rectangular_nth:
  "rectangular (c # cs) \<Longrightarrow> x < length (c # cs) \<Longrightarrow> length ((c # cs) ! x) = length c"
  unfolding rectangular_def by (metis list.sel(1) nth_mem)

lemma shape_Cons: "shape (c # cs) = (int (length (c # cs)), int (length c))"
  by (simp add: shape_def)

lemma getitem_rectangular:
  assumes "rectangular a"
  shows "getitem a v = Inr (if contains a v then Some (a ! nat (fst v) ! nat (snd v)) else None)"
proof (cases "contains a v")
  case False
  then show ?thesis by (simp add: getitem_def)
next
  case True
  then obtain c cs where a: "a = c # cs" and x: "0 \<le> fst v" "fst v < int (length a)"
    and y: "0 \<le> snd v" "snd v < int (length c)"
    by (auto simp: contains_def split: list.splits)
  from x have "nat (fst v) < length a" by (simp add: nat_less_iff)
  with assms a have "length (a ! nat (fst v)) = length c" using rectangular_nth by blast
  with y True show ?thesis by (simp add: getitem_def nat_less_iff)
qed

lemma getitem_indicate_rectangular:
  assumes "rectangular a"
  shows "getitem (indicate a value) v =
           Inr (if contains a v then Some (a ! nat (fst v) ! nat (snd v) = value) else None)"
proof -
  have c: "contains (indicate a value) v = contains a v"
    by (simp add: contains_shape)
  show ?thesis
  proof (cases "contains a v")
    case False
    with c show ?thesis by (simp add: getitem_def)
  next
    case True
    then obtain c0 cs where a: "a = c0 # cs" and x: "0 \<le> fst v" "fst v < int (length a)"
      and y: "0 \<le> snd v" "snd v < int (length c0)"
      by (auto simp: contains_def split: list.splits)
    from x have xl: "nat (fst v) < length a" by (simp add: nat_less_iff)
    with assms a have "length (a ! nat (fst v)) = length c0" using rectangular_nth by blast
    with y have yl: "nat (snd v) < length (a ! nat (fst v))" by (simp add: nat_less_iff)
    have "getitem (indicate a value) v =
            Inr (if contains (indicate a value) v
                 then Some (indicate a value ! nat (fst v) ! nat (snd v)) else None)"
      using assms by (intro getitem_rectangular) simp
    with c True xl yl show ?thesis by (simp add: indicate_def map_2d_def)
  qed
qed

lemma list_arr_rectangular:
  assumes "rectangular a"
  shows "\<exists>ds. list_arr (indicate a value) True = Inr ds \<and> (ds = [] \<longleftrightarrow> (\<forall>c \<in> set a. value \<notin> set c))"
proof (cases a)
  case Nil
  then show ?thesis by (simp add: list_arr_def shape_def indicate_def map_2d_def)
next
  case (Cons c0 cs)
  let ?b = "indicate a value"
  let ?w = "length a" and ?h = "length c0"
  have sh: "shape a = (int ?w, int ?h)" using Cons shape_Cons[of c0 cs] by simp
  have len: "\<And>x. x < ?w \<Longrightarrow> length (a ! x) = ?h"
    using assms Cons rectangular_nth by blast
  have lenb: "\<And>x. x < ?w \<Longrightarrow> length (?b ! x) = ?h"
    using len by (simp add: indicate_def map_2d_def)
  have noerr: "\<not> (\<exists>x \<in> set [0..<?w]. length (?b ! x) < ?h)"
    using lenb by auto
  let ?ds = "concat (map (\<lambda>x. map (\<lambda>y. (int x, int y))
                (filter (\<lambda>y. ?b ! x ! y = True) [0..<?h])) [0..<?w])"
  have r: "list_arr ?b True = Inr ?ds"
    using noerr by (simp add: list_arr_def sh Let_def)
  have "?ds = [] \<longleftrightarrow> (\<forall>x < ?w. \<forall>y < ?h. a ! x ! y \<noteq> value)"
    using len by (fastforce simp: filter_empty_conv indicate_def map_2d_def)
  also have "\<dots> \<longleftrightarrow> (\<forall>c \<in> set a. value \<notin> set c)"
  proof
    assume l: "\<forall>x < ?w. \<forall>y < ?h. a ! x ! y \<noteq> value"
    show "\<forall>c \<in> set a. value \<notin> set c"
    proof (intro ballI notI)
      fix c assume "c \<in> set a" "value \<in> set c"
      then obtain x y where "x < ?w" "a ! x = c" "y < length c" "c ! y = value"
        by (auto simp: in_set_conv_nth)
      with l len show False by metis
    qed
  next
    assume r: "\<forall>c \<in> set a. value \<notin> set c"
    show "\<forall>x < ?w. \<forall>y < ?h. a ! x ! y \<noteq> value"
    proof (intro allI impI notI)
      fix x y assume "x < ?w" "y < ?h" "a ! x ! y = value"
      with len have "a ! x \<in> set a" "value \<in> set (a ! x)" by (auto simp: in_set_conv_nth)
      with r show False by auto
    qed
  qed
  finally show ?thesis using r by blast
qed

section \<open>Terminal states\<close>

text \<open>
  Claim C4. Win and loss are never both true. With a player slot, loss holds exactly when
  the player is absent; on a rectangular grid, win holds exactly when the player is alive
  and no cell of the statics grid is a dot.
\<close>

theorem win_loss:
  "\<not> (win g = Inr True \<and> loss g = Inr True) \<and>
   (agents g \<noteq> [] \<longrightarrow> loss g = Inr (agents g ! 0 = None)) \<and>
   (agents g \<noteq> [] \<and> rectangular (statics g) \<longrightarrow>
      win g = Inr (agents g ! 0 \<noteq> None \<and> (\<forall>c \<in> set (statics g). Dot \<notin> set c)))"
proof (intro conjI impI)
  show "\<not> (win g = Inr True \<and> loss g = Inr True)"
    by (auto simp: win_def split: sum.splits if_splits)
next
  assume "agents g \<noteq> []"
  then show "loss g = Inr (agents g ! 0 = None)"
    by (simp add: loss_def pacman_def PACMAN_ID_def)
next
  assume a: "agents g \<noteq> [] \<and> rectangular (statics g)"
  then have l: "loss g = Inr (agents g ! 0 = None)"
    by (simp add: loss_def pacman_def PACMAN_ID_def)
  from a list_arr_rectangular[of "statics g" Dot]
  obtain ds where ds: "list_arr (dots g) True = Inr ds"
      "ds = [] \<longleftrightarrow> (\<forall>c \<in> set (statics g). Dot \<notin> set c)"
    by (auto simp: dots_def)
  show "win g = Inr (agents g ! 0 \<noteq> None \<and> (\<forall>c \<in> set (statics g). Dot \<notin> set c))"
    using l ds by (simp add: win_def)
qed

text \<open>
  A three by one corridor with Pacman in the middle: with a dot left the game is neither
  won nor lost, without dots it is won, and with Pacman absent it is lost.
\<close>

theorem win_loss_witness:
  "win \<lparr>statics = [[Wall], [Empty], [Wall]], agents = [Some (1, 0)], starts = [Some (1, 0)],
        facings = [stop], timers = [0], score = 0, tick = 0\<rparr> = Inr True \<and>
   loss \<lparr>statics = [[Wall], [Empty], [Wall]], agents = [Some (1, 0)], starts = [Some (1, 0)],
        facings = [stop], timers = [0], score = 0, tick = 0\<rparr> = Inr False \<and>
   gameover \<lparr>statics = [[Wall], [Empty], [Wall]], agents = [Some (1, 0)], starts = [Some (1, 0)],
        facings = [stop], timers = [0], score = 0, tick = 0\<rparr> = Inr True \<and>
   win \<lparr>statics = [[Wall], [Dot], [Wall]], agents = [Some (1, 0)], starts = [Some (1, 0)],
        facings = [stop], timers = [0], score = 0, tick = 0\<rparr> = Inr False \<and>
   loss \<lparr>statics = [[Wall], [Empty], [Wall]], agents = [None], starts = [Some (1, 0)],
        facings = [stop], timers = [0], score = 0, tick = 0\<rparr> = Inr True"
  using win_loss[of "\<lparr>statics = [[Wall], [Empty], [Wall]], agents = [Some (1, 0)], starts = [Some (1, 0)],
        facings = [stop], timers = [0], score = 0, tick = 0\<rparr>"]
     win_loss[of "\<lparr>statics = [[Wall], [Dot], [Wall]], agents = [Some (1, 0)], starts = [Some (1, 0)],
        facings = [stop], timers = [0], score = 0, tick = 0\<rparr>"]
     win_loss[of "\<lparr>statics = [[Wall], [Empty], [Wall]], agents = [None], starts = [Some (1, 0)],
        facings = [stop], timers = [0], score = 0, tick = 0\<rparr>"]
  by (simp add: rectangular_def gameover_def)

section \<open>Moving into a wall\<close>

lemma kill_error: "kill i g = (Some e, g') \<Longrightarrow> e = IndexError"
  by (auto simp: kill_def Let_def split: if_splits)

lemma resolve_encounter_error: "resolve_encounter i g = (Some e, g') \<Longrightarrow> e = IndexError"
proof -
  assume a: "resolve_encounter i g = (Some e, g')"
  have t: "\<And>k r. then_do (kill k g) (\<lambda>g1. (None, r g1)) = (Some e, g') \<Longrightarrow> e = IndexError"
  proof -
    fix k r assume b: "then_do (kill k g) (\<lambda>g1. (None, r g1)) = (Some e, g')"
    obtain x h where k: "kill k g = (x, h)" by (cases "kill k g")
    show "e = IndexError"
    proof (cases x)
      case None
      with b k show ?thesis by simp
    next
      case (Some e')
      with b k have "e' = e" by simp
      with k Some kill_error show ?thesis by blast
    qed
  qed
  from a show ?thesis
    by (auto simp: resolve_encounter_def split: if_splits dest: t)
qed

lemma meet_ghost_error: "meet_ghost v g = (Some e, g') \<Longrightarrow> e = IndexError"
  by (auto simp: meet_ghost_def split: sum.splits dest: resolve_encounter_error)

lemma py_error: "py_get xs i = Inl e \<Longrightarrow> e = IndexError" "py_set xs i v = Inl e \<Longrightarrow> e = IndexError"
  by (auto simp: py_get_def py_set_def split: if_splits)

lemma setitem_error: "setitem a k v = Inl e \<Longrightarrow> e = IndexError"
  by (auto simp: setitem_def split: sum.splits dest: py_error)

lemma getitem_error: "getitem a v = Inl e \<Longrightarrow> e = IndexError"
  by (auto simp: getitem_def split: if_splits)

lemma list_arr_error: "list_arr a v = Inl e \<Longrightarrow> e = IndexError"
  by (auto simp: list_arr_def Let_def split: if_splits)

lemma eat_dot_error: "eat_dot v g = (Some e, g') \<Longrightarrow> e = IndexError"
  by (auto simp: eat_dot_def Let_def split: sum.splits if_splits
           dest: setitem_error getitem_error list_arr_error)

lemma eat_pellet_error: "eat_pellet v g = (Some e, g') \<Longrightarrow> e = IndexError"
  by (auto simp: eat_pellet_def Let_def split: sum.splits if_splits
           dest: setitem_error getitem_error)

lemma then_do_error:
  assumes "then_do r f = (Some e, g')"
    and "\<And>h. r = (Some e, h) \<Longrightarrow> P"
    and "\<And>h. f h = (Some e, g') \<Longrightarrow> P"
  shows P
  using assms by (cases r; cases "fst r") auto

lemma pacman_arrival_error:
  "then_do (then_do (meet_ghost v g) (eat_dot v)) (eat_pellet v) = (Some e, g') \<Longrightarrow> e = IndexError"
  by (elim then_do_error) (auto dest: meet_ghost_error eat_dot_error eat_pellet_error)

lemma apply_move_alive:
  assumes "agent_id < length (agents g)" and "agents g ! agent_id = Some vec"
    and "agent_id < length (facings g)" and "agent_id < length (timers g)"
  shows "apply_move agent_id mv g =
      (let m = (case mv of None \<Rightarrow> stop | Some m \<Rightarrow> m);
           nv = vec_add vec (vector m);
           g4 = before_wall_test agent_id m vec g
       in case getitem (walls g) nv of
         Inl e \<Rightarrow> (Some e, g4)
       | Inr w \<Rightarrow>
           if truthy w then
             (Some RuntimeError,
              if agent_id = PACMAN_ID then g4\<lparr>score := score g4 + SCORE_DIE_PENALTY\<rparr> else g4)
           else if agent_id = PACMAN_ID then
             then_do (then_do (meet_ghost nv g4) (eat_dot nv)) (eat_pellet nv)
           else (case pacman g4 of
                   Inl e \<Rightarrow> (Some e, g4)
                 | Inr p \<Rightarrow> if p = Some nv then resolve_encounter agent_id g4 else (None, g4)))"
proof -
  let ?m = "case mv of None \<Rightarrow> stop | Some m \<Rightarrow> m"
  let ?nv = "vec_add vec (vector ?m)"
  let ?g2 = "g\<lparr>facings := (facings g)[agent_id := ?m], agents := (agents g)[agent_id := Some ?nv]\<rparr>"
  let ?g3 = "if timers g ! agent_id \<noteq> 0
             then ?g2\<lparr>timers := (timers g)[agent_id := timers g ! agent_id - 1]\<rparr> else ?g2"
  let ?g4 = "if agent_id = PACMAN_ID then ?g3\<lparr>score := score ?g3 + SCORE_TICK_PENALTY\<rparr> else ?g3"
  have g4: "?g4 = before_wall_test agent_id ?m vec g"
    by (simp add: before_wall_test_def)
  have w4: "walls (before_wall_test agent_id ?m vec g) = walls g"
    by (simp add: walls_def before_wall_test_def)
  have "apply_move agent_id mv g =
      (case getitem (walls ?g4) ?nv of
         Inl e \<Rightarrow> (Some e, ?g4)
       | Inr w \<Rightarrow>
           if truthy w then
             (Some RuntimeError,
              if agent_id = PACMAN_ID then ?g4\<lparr>score := score ?g4 + SCORE_DIE_PENALTY\<rparr> else ?g4)
           else if agent_id = PACMAN_ID then
             then_do (then_do (meet_ghost ?nv ?g4) (eat_dot ?nv)) (eat_pellet ?nv)
           else (case pacman ?g4 of
                   Inl e \<Rightarrow> (Some e, ?g4)
                 | Inr p \<Rightarrow> if p = Some ?nv then resolve_encounter agent_id ?g4 else (None, ?g4)))"
    using assms unfolding apply_move_def Let_def
    by (simp cong: sum.case_cong if_cong)
  then show ?thesis unfolding g4 w4 Let_def .
qed

lemma apply_move_lengths:
  assumes "apply_move agent_id mv g = (Some RuntimeError, g')"
    and "agent_id < length (agents g)" and "agents g ! agent_id = Some vec"
  shows "agent_id < length (facings g) \<and> agent_id < length (timers g)"
  using assms by (auto simp: apply_move_def Let_def split: if_splits)

text \<open>
  Claim C9. When \<^verbatim>\<open>apply_move\<close> of an alive agent raises the wall error, the state it
  leaves behind has the agent on the wall cell (old position plus the vector of the move),
  facing the move, with its timer decremented if it was not zero, and, for Pacman, with
  the score changed by the turn penalty and the death penalty. Nothing is rolled back.
\<close>

theorem wall_collision_not_atomic:
  assumes "apply_move agent_id mv g = (Some RuntimeError, g')"
    and "agent_id < length (agents g)"
    and "agents g ! agent_id = Some vec"
  shows "agents g' ! agent_id = Some (vec_add vec (vector (case mv of None \<Rightarrow> stop | Some m \<Rightarrow> m))) \<and>
         facings g' ! agent_id = (case mv of None \<Rightarrow> stop | Some m \<Rightarrow> m) \<and>
         timers g' ! agent_id =
           (if timers g ! agent_id \<noteq> 0 then timers g ! agent_id - 1 else timers g ! agent_id) \<and>
         score g' =
           (if agent_id = PACMAN_ID then score g + SCORE_TICK_PENALTY + SCORE_DIE_PENALTY else score g) \<and>
         (\<exists>w. getitem (walls g) (vec_add vec (vector (case mv of None \<Rightarrow> stop | Some m \<Rightarrow> m))) = Inr w
              \<and> truthy w) \<and>
         statics g' = statics g \<and> starts g' = starts g \<and> tick g' = tick g"
proof -
  let ?m = "case mv of None \<Rightarrow> stop | Some m \<Rightarrow> m"
  let ?nv = "vec_add vec (vector ?m)"
  let ?g4 = "before_wall_test agent_id ?m vec g"
  from apply_move_lengths[OF assms]
  have f: "agent_id < length (facings g)" and t: "agent_id < length (timers g)" by simp_all
  note am = apply_move_alive[OF assms(2,3) f t, of mv, unfolded Let_def]
  show ?thesis
  proof (cases "getitem (walls g) ?nv")
    case (Inl e)
    with am assms(1) getitem_error[OF Inl] show ?thesis by simp
  next
    case (Inr w)
    show ?thesis
    proof (cases "truthy w")
      case True
      with am Inr assms(1)
      have g': "g' = (if agent_id = PACMAN_ID then ?g4\<lparr>score := score ?g4 + SCORE_DIE_PENALTY\<rparr> else ?g4)"
        by simp
      show ?thesis using assms(2) f t True Inr unfolding g' by (simp add: before_wall_test_def)
    next
      case False
      show ?thesis
      proof (cases "agent_id = PACMAN_ID")
        case True
        with am Inr False assms(1)
        have "then_do (then_do (meet_ghost ?nv ?g4) (eat_dot ?nv)) (eat_pellet ?nv) = (Some RuntimeError, g')"
          by simp
        from pacman_arrival_error[OF this] show ?thesis by simp
      next
        case ne: False
        show ?thesis
        proof (cases "pacman ?g4")
          case (Inl e)
          with am Inr False ne assms(1) have "e = RuntimeError" by simp
          with Inl show ?thesis by (simp add: pacman_def split: if_splits)
        next
          case (Inr p)
          with am \<open>getitem (walls g) ?nv = Inr w\<close> False ne assms(1)
          have "p = Some ?nv" "resolve_encounter agent_id ?g4 = (Some RuntimeError, g')"
            by (auto split: if_splits)
          from resolve_encounter_error[OF this(2)] show ?thesis by simp
        qed
      qed
    qed
  qed
qed


text \<open>
  In a corridor of two free cells between walls, a scared ghost (timer 3) walks right into
  the wall, and Pacman walks left into the other wall.
\<close>

theorem wall_collision_not_atomic_witness:
  "apply_move 1 (Some right)
      \<lparr>statics = [[Wall], [Empty], [Empty], [Wall]], agents = [Some (1, 0), Some (2, 0)],
       starts = [Some (1, 0), Some (2, 0)], facings = [stop, stop], timers = [0, 3],
       score = 7, tick = 0\<rparr>
    = (Some RuntimeError,
      \<lparr>statics = [[Wall], [Empty], [Empty], [Wall]], agents = [Some (1, 0), Some (3, 0)],
       starts = [Some (1, 0), Some (2, 0)], facings = [stop, right], timers = [0, 2],
       score = 7, tick = 0\<rparr>) \<and>
   apply_move 0 (Some left)
      \<lparr>statics = [[Wall], [Empty], [Empty], [Wall]], agents = [Some (1, 0), Some (2, 0)],
       starts = [Some (1, 0), Some (2, 0)], facings = [stop, stop], timers = [0, 3],
       score = 7, tick = 0\<rparr>
    = (Some RuntimeError,
      \<lparr>statics = [[Wall], [Empty], [Empty], [Wall]], agents = [Some (0, 0), Some (2, 0)],
       starts = [Some (1, 0), Some (2, 0)], facings = [left, stop], timers = [0, 3],
       score = - 494, tick = 0\<rparr>) \<and>
   getitem (walls \<lparr>statics = [[Wall], [Empty], [Empty], [Wall]], agents = [Some (1, 0), Some (2, 0)],
       starts = [Some (1, 0), Some (2, 0)], facings = [stop, stop], timers = [0, 3],
       score = 7, tick = 0\<rparr>) (3, 0) = Inr (Some True)"
proof -
  let ?g = "\<lparr>statics = [[Wall], [Empty], [Empty], [Wall]], agents = [Some (1, 0), Some (2, 0)],
           starts = [Some (1, 0), Some (2, 0)], facings = [stop, stop], timers = [0, 3],
           score = 7, tick = 0\<rparr>"
  have a1: "apply_move 1 (Some right) ?g
    = (Some RuntimeError,
      \<lparr>statics = [[Wall], [Empty], [Empty], [Wall]], agents = [Some (1, 0), Some (3, 0)],
       starts = [Some (1, 0), Some (2, 0)], facings = [stop, right], timers = [0, 2],
       score = 7, tick = 0\<rparr>)"
    by code_simp
  have a0: "apply_move 0 (Some left) ?g
    = (Some RuntimeError,
      \<lparr>statics = [[Wall], [Empty], [Empty], [Wall]], agents = [Some (0, 0), Some (2, 0)],
       starts = [Some (1, 0), Some (2, 0)], facings = [left, stop], timers = [0, 3],
       score = - 494, tick = 0\<rparr>)"
    by code_simp
  from wall_collision_not_atomic[OF a1, of "(2, 0)"]
  obtain w where "getitem (walls ?g) (vec_add (2, 0) (vector right)) = Inr w" "truthy w"
    by auto
  then have "getitem (walls ?g) (3, 0) = Inr (Some True)"
    by (cases w) (simp_all add: vec_add_def)
  with a1 a0 show ?thesis by simp
qed

section \<open>Legal moves\<close>

lemma getitem_blocked:
  "rectangular w \<Longrightarrow> \<exists>r. getitem w v = Inr r \<and> truthy r = blocked w v"
  by (simp add: getitem_rectangular blocked_def)

lemma rectangular_walls [simp]: "rectangular (walls g) = rectangular (statics g)"
  by (simp add: walls_def)

lemma legal_moves_loop_rectangular:
  assumes "rectangular (statics g)"
  shows "legal_moves_loop g vec ms =
           Inr (filter (\<lambda>m. \<not> blocked (walls g) (vec_add vec (vector m))) ms)"
proof (induction ms)
  case Nil
  show ?case by simp
next
  case (Cons m ms)
  from assms getitem_blocked[of "walls g" "vec_add vec (vector m)"]
  obtain r where "getitem (walls g) (vec_add vec (vector m)) = Inr r"
    "truthy r = blocked (walls g) (vec_add vec (vector m))" by auto
  with Cons show ?case by simp
qed

lemma legal_moves_vector_rectangular:
  "rectangular (statics g) \<Longrightarrow>
     legal_moves_vector g vec = Inr (filter (\<lambda>m. \<not> blocked (walls g) (vec_add vec (vector m))) Move)"
  by (simp add: legal_moves_vector_def legal_moves_loop_rectangular)

lemma vec_add_stop [simp]: "vec_add vec (vector stop) = vec"
  by (simp add: vec_add_def)

text \<open>
  Claim C10. On a rectangular grid, the legal moves of a position whose own cell does not
  read as a wall contain stop; so an alive agent standing on such a cell has a non-empty
  set of legal moves.
\<close>

theorem stop_is_legal:
  assumes "rectangular (statics g)"
  shows "(\<forall>vec. getitem (walls g) vec \<noteq> Inr (Some True) \<longrightarrow>
            (\<exists>ms. legal_moves_vector g vec = Inr ms \<and> stop \<in> set ms)) \<and>
         (\<forall>i vec. i < length (agents g) \<and> agents g ! i = Some vec \<and>
                  getitem (walls g) vec \<noteq> Inr (Some True) \<longrightarrow>
            (\<exists>ms. legal_moves_id g i = Inr ms \<and> ms \<noteq> []))"
proof -
  have 1: "\<exists>ms. legal_moves_vector g vec = Inr ms \<and> stop \<in> set ms"
    if "getitem (walls g) vec \<noteq> Inr (Some True)" for vec
  proof -
    from assms getitem_blocked[of "walls g" vec]
    obtain r where r: "getitem (walls g) vec = Inr r" "truthy r = blocked (walls g) vec" by auto
    with that have "\<not> blocked (walls g) vec" by (cases r) auto
    then show ?thesis
      using assms by (simp add: legal_moves_vector_rectangular Move_def vec_add_def)
  qed
  have 2: "\<exists>ms. legal_moves_id g i = Inr ms \<and> ms \<noteq> []"
    if "i < length (agents g)" "agents g ! i = Some vec" "getitem (walls g) vec \<noteq> Inr (Some True)"
    for i vec
    using 1[OF that(3)] that(1,2) by (auto simp: legal_moves_id_def)
  from 1 2 show ?thesis by blast
qed

text \<open>A free cell walled in on all four sides: stop is legal, and nothing else is.\<close>

theorem stop_is_legal_witness:
  "rectangular [[Wall, Wall, Wall], [Wall, Empty, Wall], [Wall, Wall, Wall]] \<and>
   getitem (walls \<lparr>statics = [[Wall, Wall, Wall], [Wall, Empty, Wall], [Wall, Wall, Wall]],
                  agents = [Some (1, 1)], starts = [Some (1, 1)], facings = [stop],
                  timers = [0], score = 0, tick = 0\<rparr>) (1, 1) = Inr (Some False) \<and>
   legal_moves_vector \<lparr>statics = [[Wall, Wall, Wall], [Wall, Empty, Wall], [Wall, Wall, Wall]],
                  agents = [Some (1, 1)], starts = [Some (1, 1)], facings = [stop],
                  timers = [0], score = 0, tick = 0\<rparr> (1, 1) = Inr [stop] \<and>
   legal_moves_id \<lparr>statics = [[Wall, Wall, Wall], [Wall, Empty, Wall], [Wall, Wall, Wall]],
                  agents = [Some (1, 1)], starts = [Some (1, 1)], facings = [stop],
                  timers = [0], score = 0, tick = 0\<rparr> 0 = Inr [stop]"
proof -
  let ?g = "\<lparr>statics = [[Wall, Wall, Wall], [Wall, Empty, Wall], [Wall, Wall, Wall]],
                  agents = [Some (1, 1)], starts = [Some (1, 1)], facings = [stop],
                  timers = [0], score = 0, tick = 0\<rparr>"
  have r: "rectangular (statics ?g)" by (simp add: rectangular_def)
  have w: "getitem (walls ?g) (1, 1) = Inr (Some False)" by code_simp
  then have nw: "getitem (walls ?g) (1, 1) \<noteq> Inr (Some True)" by simp
  from stop_is_legal[OF r] nw
  obtain ms where "legal_moves_vector ?g (1, 1) = Inr ms" "stop \<in> set ms" by blast
  moreover have "legal_moves_vector ?g (1, 1) = Inr [stop]" by code_simp
  moreover have "legal_moves_id ?g 0 = Inr [stop]" by code_simp
  ultimately show ?thesis using r w by simp
qed

section \<open>Encounters\<close>

lemma kill_ghost:
  assumes "k \<noteq> PACMAN_ID" "k < length (agents g)" "k < length (starts g)" "k < length (timers g)"
  shows "kill k g = (None, g\<lparr>agents := (agents g)[k := starts g ! k], timers := (timers g)[k := 0]\<rparr>)"
  using assms by (simp add: kill_def Let_def)

lemma kill_pacman:
  assumes "agents g \<noteq> []"
  shows "kill PACMAN_ID g = (None, g\<lparr>agents := (agents g)[0 := None]\<rparr>)"
  using assms by (simp add: kill_def PACMAN_ID_def)

lemma resolve_encounter_ghost:
  assumes "k \<noteq> PACMAN_ID" "k < length (agents g)" "k < length (starts g)" "k < length (timers g)"
  shows "resolve_encounter k g =
          (None, if timers g ! k \<noteq> 0
                 then g\<lparr>agents := (agents g)[k := starts g ! k], timers := (timers g)[k := 0],
                        score := score g + SCORE_GET_GHOST\<rparr>
                 else g\<lparr>agents := (agents g)[0 := None], score := score g + SCORE_DIE_PENALTY\<rparr>)"
proof -
  from assms(2) have "agents g \<noteq> []" by auto
  then show ?thesis
    using assms by (simp add: resolve_encounter_def kill_ghost kill_pacman)
qed

lemma setitem_contains:
  assumes "rectangular a" "contains a v"
  shows "setitem a v x = Inr (a[nat (fst v) := (a ! nat (fst v))[nat (snd v) := x]])"
proof -
  from assms(2) obtain c cs where a: "a = c # cs" and x: "0 \<le> fst v" "fst v < int (length a)"
    and y: "0 \<le> snd v" "snd v < int (length c)"
    by (auto simp: contains_def split: list.splits)
  from x have xl: "nat (fst v) < length a" by (simp add: nat_less_iff)
  with assms a have "length (a ! nat (fst v)) = length c" using rectangular_nth by blast
  with y have "snd v < int (length (a ! nat (fst v)))" by simp
  with x y show ?thesis by (simp add: setitem_def py_get_def py_set_def)
qed

lemma rectangular_update:
  assumes "rectangular a"
  shows "rectangular (a[i := (a ! i)[j := x]])"
proof (cases "i < length a")
  case False
  with assms show ?thesis by (simp add: list_update_beyond)
next
  case True
  with assms have "\<forall>c \<in> set (a[i := (a ! i)[j := x]]). length c = length (hd a)"
    by (auto simp: rectangular_def set_conv_nth nth_list_update)
  moreover have "length (hd (a[i := (a ! i)[j := x]])) = length (hd a)"
    using True by (cases a; cases i) auto
  ultimately show ?thesis by (simp add: rectangular_def)
qed

lemma contains_update [simp]: "contains (a[i := (a ! i)[j := x]]) v = contains a v"
  by (cases a; cases i) (auto simp: contains_def)

lemma eat_dot_rectangular:
  assumes "rectangular (statics g)"
  shows "eat_dot v g =
     (None,
      if getitem (statics g) v = Inr (Some Dot) then
        g\<lparr>statics := (statics g)[nat (fst v) := (statics g ! nat (fst v))[nat (snd v) := Empty]],
          score := score g + pickup_reward (Inr (Some Dot))
             (g\<lparr>statics := (statics g)[nat (fst v) := (statics g ! nat (fst v))[nat (snd v) := Empty]]\<rparr>)\<rparr>
      else g)"
proof (cases "getitem (statics g) v = Inr (Some Dot)")
  case False
  have "getitem (dots g) v = Inr (if contains (statics g) v
          then Some (statics g ! nat (fst v) ! nat (snd v) = Dot) else None)"
    unfolding dots_def using assms by (rule getitem_indicate_rectangular)
  with False getitem_rectangular[OF assms, of v]
  have "\<exists>d. getitem (dots g) v = Inr d \<and> \<not> truthy d"
    by (simp split: if_splits)
  with False show ?thesis by (auto simp: eat_dot_def)
next
  case True
  let ?a = "(statics g)[nat (fst v) := (statics g ! nat (fst v))[nat (snd v) := Empty]]"
  from True getitem_rectangular[OF assms, of v]
  have c: "contains (statics g) v" and c': "statics g ! nat (fst v) ! nat (snd v) = Dot"
    by (simp_all split: if_splits)
  have "getitem (dots g) v = Inr (if contains (statics g) v
          then Some (statics g ! nat (fst v) ! nat (snd v) = Dot) else None)"
    unfolding dots_def using assms by (rule getitem_indicate_rectangular)
  with c c' have d: "getitem (dots g) v = Inr (Some True)" by simp
  have s: "setitem (statics g) v Empty = Inr ?a" using assms c by (rule setitem_contains)
  have ra: "rectangular ?a" using assms by (rule rectangular_update)
  from list_arr_rectangular[OF ra, of Dot]
  obtain ds where ds: "list_arr (indicate ?a Dot) True = Inr ds"
      "ds = [] \<longleftrightarrow> (\<forall>c \<in> set ?a. Dot \<notin> set c)" by blast
  show ?thesis
    using True d s ds by (simp add: eat_dot_def Let_def dots_def pickup_reward_def)
qed

lemma eat_pellet_rectangular:
  assumes "rectangular (statics g)"
  shows "eat_pellet v g =
     (None,
      if getitem (statics g) v = Inr (Some Pellet) then
        g\<lparr>statics := (statics g)[nat (fst v) := (statics g ! nat (fst v))[nat (snd v) := Empty]],
          score := score g + SCORE_GET_PELLET,
          timers := take 1 (timers g) @ replicate (length (timers g) - 1) SCARED_TIME\<rparr>
      else g)"
proof (cases "getitem (statics g) v = Inr (Some Pellet)")
  case False
  have "getitem (pellets g) v = Inr (if contains (statics g) v
          then Some (statics g ! nat (fst v) ! nat (snd v) = Pellet) else None)"
    unfolding pellets_def using assms by (rule getitem_indicate_rectangular)
  with False getitem_rectangular[OF assms, of v]
  have "\<exists>d. getitem (pellets g) v = Inr d \<and> \<not> truthy d"
    by (simp split: if_splits)
  with False show ?thesis by (auto simp: eat_pellet_def)
next
  case True
  let ?a = "(statics g)[nat (fst v) := (statics g ! nat (fst v))[nat (snd v) := Empty]]"
  from True getitem_rectangular[OF assms, of v]
  have c: "contains (statics g) v" and c': "statics g ! nat (fst v) ! nat (snd v) = Pellet"
    by (simp_all split: if_splits)
  have "getitem (pellets g) v = Inr (if contains (statics g) v
          then Some (statics g ! nat (fst v) ! nat (snd v) = Pellet) else None)"
    unfolding pellets_def using assms by (rule getitem_indicate_rectangular)
  with c c' have d: "getitem (pellets g) v = Inr (Some True)" by simp
  have s: "setitem (statics g) v Empty = Inr ?a" using assms c by (rule setitem_contains)
  show ?thesis
    using True d s by (simp add: eat_pellet_def Let_def)
qed


lemma py_index_Inr:
  "py_index xs v = Inr i \<Longrightarrow> i < length xs \<and> xs ! i = v"
proof (induction xs arbitrary: i)
  case Nil
  then show ?case by simp
next
  case (Cons x xs)
  show ?case
  proof (cases "x = v")
    case True
    with Cons.prems show ?thesis by simp
  next
    case False
    with Cons.prems obtain n where n: "py_index xs v = Inr n" "i = Suc n"
      by (auto split: sum.splits)
    with Cons.IH[OF n(1)] show ?thesis by simp
  qed
qed

lemma ghost_moves_onto_player:
  assumes rect: "rectangular (statics g)"
    and len: "length (starts g) = length (agents g)" "length (facings g) = length (agents g)"
             "length (timers g) = length (agents g)"
    and free: "getitem (walls g) nv \<noteq> Inr (Some True)"
    and k: "0 < k" "k < length (agents g)" "agents g ! k = Some vec" "vec_add vec (vector m) = nv"
    and p: "agents g ! 0 = Some nv"
  shows "apply_move k (Some m) g =
     (None,
      if timers g ! k \<noteq> 0 \<and> timers g ! k \<noteq> 1
      then g\<lparr>facings := (facings g)[k := m], agents := (agents g)[k := starts g ! k],
             timers := (timers g)[k := 0], score := score g + SCORE_GET_GHOST\<rparr>
      else g\<lparr>facings := (facings g)[k := m], agents := (agents g)[k := Some nv, 0 := None],
             timers := (timers g)[k := 0], score := score g + SCORE_DIE_PENALTY\<rparr>)"
proof -
  let ?g4 = "before_wall_test k m vec g"
  from rect getitem_blocked[of "walls g" nv]
  obtain w where w: "getitem (walls g) nv = Inr w" "truthy w = blocked (walls g) nv" by auto
  with free have nw: "\<not> truthy w" by (cases w) auto
  have kp: "k \<noteq> PACMAN_ID" using k(1) by (simp add: PACMAN_ID_def)
  have pac: "pacman ?g4 = Inr (Some nv)"
    using k p by (auto simp: pacman_def before_wall_test_def PACMAN_ID_def)
  have am: "apply_move k (Some m) g = resolve_encounter k ?g4"
    using apply_move_alive[of k g vec "Some m"] k len w nw kp pac by (simp add: Let_def)
  have t4: "timers ?g4 ! k = (if timers g ! k \<noteq> 0 then timers g ! k - 1 else 0)"
    using k len by (simp add: before_wall_test_def)
  have l4: "k < length (agents ?g4)" "k < length (starts ?g4)" "k < length (timers ?g4)"
    using k len by (simp_all add: before_wall_test_def)
  have up: "timers g ! k = 0 \<Longrightarrow> (timers g)[k := 0] = timers g"
    by (metis list_update_id)
  show ?thesis
    unfolding am resolve_encounter_ghost[OF kp l4] t4
    using kp k by (auto simp: before_wall_test_def list_update_swap up)
qed


lemma getitem_update_same:
  assumes "rectangular a" "contains a v"
  shows "getitem (a[nat (fst v) := (a ! nat (fst v))[nat (snd v) := x]]) v = Inr (Some x)"
proof -
  let ?a = "a[nat (fst v) := (a ! nat (fst v))[nat (snd v) := x]]"
  from assms(2) obtain c cs where a: "a = c # cs" and x: "0 \<le> fst v" "fst v < int (length a)"
    and y: "0 \<le> snd v" "snd v < int (length c)"
    by (auto simp: contains_def split: list.splits)
  from x have xl: "nat (fst v) < length a" by (simp add: nat_less_iff)
  with assms a have "length (a ! nat (fst v)) = length c" using rectangular_nth by blast
  with y have yl: "nat (snd v) < length (a ! nat (fst v))" by (simp add: nat_less_iff)
  have "getitem ?a v = Inr (if contains ?a v then Some (?a ! nat (fst v) ! nat (snd v)) else None)"
    using rectangular_update[OF assms(1)] by (rule getitem_rectangular)
  with assms(2) xl yl show ?thesis by simp
qed

lemma player_moves_onto_ghost:
  assumes rect: "rectangular (statics g)"
    and len: "length (starts g) = length (agents g)" "length (facings g) = length (agents g)"
             "length (timers g) = length (agents g)"
    and free: "getitem (walls g) nv \<noteq> Inr (Some True)"
    and p: "agents g \<noteq> []" "agents g ! 0 = Some vec" "vec_add vec (vector m) = nv"
    and i: "py_index (ghosts g) (Some nv) = Inr i"
  shows "\<exists>g'. apply_move 0 (Some m) g = (None, g') \<and>
      score g' = score g + SCORE_TICK_PENALTY
                 + (if timers g ! Suc i \<noteq> 0 then SCORE_GET_GHOST else SCORE_DIE_PENALTY)
                 + pickup_reward (getitem (statics g) nv) g' \<and>
      agents g' = (if timers g ! Suc i \<noteq> 0 then (agents g)[0 := Some nv, Suc i := starts g ! Suc i]
                   else (agents g)[0 := None]) \<and>
      (timers g ! Suc i \<noteq> 0 \<longrightarrow>
         timers g' ! Suc i = (if getitem (statics g) nv = Inr (Some Pellet) then SCARED_TIME else 0))"
proof -
  let ?g4 = "before_wall_test 0 m vec g"
  from rect getitem_blocked[of "walls g" nv]
  obtain w where w: "getitem (walls g) nv = Inr w" "truthy w = blocked (walls g) nv" by auto
  with free have nw: "\<not> truthy w" by (cases w) auto
  have l0: "0 < length (agents g)" using p(1) by simp
  from py_index_Inr[OF i] have i': "Suc i < length (agents g)" "agents g ! Suc i = Some nv"
    by (auto simp: ghosts_def PACMAN_ID_def)
  have am: "apply_move 0 (Some m) g =
      then_do (then_do (meet_ghost nv ?g4) (eat_dot nv)) (eat_pellet nv)"
    using apply_move_alive[of 0 g vec "Some m"] l0 p len w nw by (simp add: Let_def PACMAN_ID_def)
  have gh: "ghosts ?g4 = ghosts g"
    by (simp add: ghosts_def before_wall_test_def PACMAN_ID_def drop_update_cancel)
  have kp: "Suc i \<noteq> PACMAN_ID" by (simp add: PACMAN_ID_def)
  have l4: "Suc i < length (agents ?g4)" "Suc i < length (starts ?g4)" "Suc i < length (timers ?g4)"
    using i' len by (simp_all add: before_wall_test_def)
  have t4: "timers ?g4 ! Suc i = timers g ! Suc i"
    by (simp add: before_wall_test_def)
  define g5 where "g5 =
     (if timers g ! Suc i \<noteq> 0
      then ?g4\<lparr>agents := (agents ?g4)[Suc i := starts ?g4 ! Suc i], timers := (timers ?g4)[Suc i := 0],
               score := score ?g4 + SCORE_GET_GHOST\<rparr>
      else ?g4\<lparr>agents := (agents ?g4)[0 := None], score := score ?g4 + SCORE_DIE_PENALTY\<rparr>)"
  have mg: "meet_ghost nv ?g4 = (None, g5)"
    unfolding meet_ghost_def gh i g5_def using resolve_encounter_ghost[OF kp l4] t4 by simp
  have s5: "statics g5 = statics g" by (simp add: g5_def before_wall_test_def)
  have r5: "rectangular (statics g5)" using rect s5 by simp
  have sc5: "score g5 = score g + SCORE_TICK_PENALTY
                 + (if timers g ! Suc i \<noteq> 0 then SCORE_GET_GHOST else SCORE_DIE_PENALTY)"
    by (simp add: g5_def before_wall_test_def PACMAN_ID_def)
  have ag5: "agents g5 = (if timers g ! Suc i \<noteq> 0 then (agents g)[0 := Some nv, Suc i := starts g ! Suc i]
                   else (agents g)[0 := None])"
    using p(3) by (simp add: g5_def before_wall_test_def)
  have tm5: "timers g ! Suc i \<noteq> 0 \<Longrightarrow> timers g5 ! Suc i = 0" "length (timers g5) = length (agents g)"
    using l4 len by (simp_all add: g5_def before_wall_test_def)
  let ?a = "(statics g)[nat (fst nv) := (statics g ! nat (fst nv))[nat (snd nv) := Empty]]"
  note gi = getitem_rectangular[OF rect, of nv]
  show ?thesis
  proof (cases "getitem (statics g) nv = Inr (Some Dot)")
    case True
    with gi have c: "contains (statics g) nv" by (simp split: if_splits)
    let ?g6 = "g5\<lparr>statics := ?a, score := score g5 + pickup_reward (Inr (Some Dot)) (g5\<lparr>statics := ?a\<rparr>)\<rparr>"
    have ed: "eat_dot nv g5 = (None, ?g6)"
      using eat_dot_rectangular[OF r5, of nv] True by (simp add: s5)
    have "getitem (statics ?g6) nv = Inr (Some Empty)"
      using getitem_update_same[OF rect c] by simp
    then have np: "getitem (statics ?g6) nv \<noteq> Inr (Some Pellet)" by simp
    have r6: "rectangular (statics ?g6)" using rectangular_update[OF rect] by simp
    have ep: "eat_pellet nv ?g6 = (None, ?g6)"
      using eat_pellet_rectangular[OF r6, of nv] np by simp
    have pr: "pickup_reward (Inr (Some Dot)) (g5\<lparr>statics := ?a\<rparr>) = pickup_reward (Inr (Some Dot)) ?g6"
      by (simp add: pickup_reward_def)
    have "apply_move 0 (Some m) g = (None, ?g6)"
      unfolding am mg using ed ep by simp
    moreover have "score ?g6 = score g + SCORE_TICK_PENALTY
                 + (if timers g ! Suc i \<noteq> 0 then SCORE_GET_GHOST else SCORE_DIE_PENALTY)
                 + pickup_reward (getitem (statics g) nv) ?g6"
      unfolding True pr[symmetric] using sc5 by simp
    moreover have "agents ?g6 = agents g5" "timers ?g6 = timers g5" by simp_all
    ultimately show ?thesis using ag5 tm5 True by (intro exI[of _ ?g6]) simp
  next
    case nd: False
    have ed: "eat_dot nv g5 = (None, g5)"
      using eat_dot_rectangular[OF r5, of nv] nd by (simp add: s5)
    show ?thesis
    proof (cases "getitem (statics g) nv = Inr (Some Pellet)")
      case True
      let ?g7 = "g5\<lparr>statics := ?a, score := score g5 + SCORE_GET_PELLET,
                    timers := take 1 (timers g5) @ replicate (length (timers g5) - 1) SCARED_TIME\<rparr>"
      have ep: "eat_pellet nv g5 = (None, ?g7)"
        using eat_pellet_rectangular[OF r5, of nv] True by (simp add: s5)
      have "apply_move 0 (Some m) g = (None, ?g7)"
        unfolding am mg using ed ep by simp
      moreover have "score ?g7 = score g + SCORE_TICK_PENALTY
                 + (if timers g ! Suc i \<noteq> 0 then SCORE_GET_GHOST else SCORE_DIE_PENALTY)
                 + pickup_reward (getitem (statics g) nv) ?g7"
        unfolding True using sc5 by (simp add: pickup_reward_def)
      moreover have "agents ?g7 = agents g5" by simp
      moreover have "timers ?g7 ! Suc i = SCARED_TIME"
        using tm5(2) i'(1) by (simp add: nth_append)
      ultimately show ?thesis using ag5 True by (intro exI[of _ ?g7]) simp
    next
      case False
      have ep: "eat_pellet nv g5 = (None, g5)"
        using eat_pellet_rectangular[OF r5, of nv] False by (simp add: s5)
      have "apply_move 0 (Some m) g = (None, g5)"
        unfolding am mg using ed ep by simp
      moreover have "pickup_reward (getitem (statics g) nv) g5 = 0"
        using nd False by (simp add: pickup_reward_def)
      ultimately show ?thesis using ag5 tm5 sc5 False by (intro exI[of _ g5]) simp
    qed
  qed
qed


text \<open>
  Claim C2, as the code has it. On a rectangular grid, with the four per-agent lists of
  equal length and a destination cell \<open>nv\<close> that does not read as a wall:

  \<^item> when adversary \<open>k\<close> moves onto the player's cell, the encounter is decided by the timer
    of \<open>k\<close> after the decrement of its own move: if that is not zero (the timer was neither
    0 nor 1), \<open>k\<close> is back at its start with timer 0 and the score has grown by exactly
    the kill bonus; otherwise the player is absent and the score has changed by exactly
    the death penalty;
  \<^item> when the player moves onto a cell where adversaries stand, the encounter is with the
    first of them in the agent list and is decided by its timer as it stands: if not
    zero, that adversary is back at its start and the player is on the cell; otherwise
    the player is absent. The score changes by the turn penalty, plus the kill bonus or
    the death penalty, plus what the cell itself yields (dot, last dot, pellet); a pellet
    on the cell sets the respawned adversary's timer to the scared time, otherwise it is 0.
\<close>

theorem encounter_resolution:
  assumes "rectangular (statics g)"
    and "length (starts g) = length (agents g)" and "length (facings g) = length (agents g)"
    and "length (timers g) = length (agents g)"
    and "getitem (walls g) nv \<noteq> Inr (Some True)"
  shows "(\<forall>k vec m. 0 < k \<and> k < length (agents g) \<and> agents g ! k = Some vec \<and>
                    vec_add vec (vector m) = nv \<and> agents g ! 0 = Some nv \<longrightarrow>
            (\<exists>g'. apply_move k (Some m) g = (None, g') \<and>
                  (if timers g ! k \<noteq> 0 \<and> timers g ! k \<noteq> 1
                   then agents g' = (agents g)[k := starts g ! k] \<and> timers g' ! k = 0 \<and>
                        score g' = score g + SCORE_GET_GHOST
                   else agents g' = (agents g)[k := Some nv, 0 := None] \<and>
                        score g' = score g + SCORE_DIE_PENALTY))) \<and>
         (\<forall>i vec m. agents g \<noteq> [] \<and> agents g ! 0 = Some vec \<and> vec_add vec (vector m) = nv \<and>
                    py_index (ghosts g) (Some nv) = Inr i \<longrightarrow>
            (\<exists>g'. apply_move 0 (Some m) g = (None, g') \<and>
                  score g' = score g + SCORE_TICK_PENALTY
                     + (if timers g ! Suc i \<noteq> 0 then SCORE_GET_GHOST else SCORE_DIE_PENALTY)
                     + pickup_reward (getitem (statics g) nv) g' \<and>
                  agents g' = (if timers g ! Suc i \<noteq> 0
                               then (agents g)[0 := Some nv, Suc i := starts g ! Suc i]
                               else (agents g)[0 := None]) \<and>
                  (timers g ! Suc i \<noteq> 0 \<longrightarrow>
                     timers g' ! Suc i =
                       (if getitem (statics g) nv = Inr (Some Pellet) then SCARED_TIME else 0))))"
proof (intro conjI allI impI)
  fix k vec m
  assume a: "0 < k \<and> k < length (agents g) \<and> agents g ! k = Some vec \<and>
             vec_add vec (vector m) = nv \<and> agents g ! 0 = Some nv"
  then have k: "0 < k" "k < length (agents g)" "agents g ! k = Some vec"
      "vec_add vec (vector m) = nv" and p: "agents g ! 0 = Some nv" by simp_all
  note r = ghost_moves_onto_player[OF assms k p]
  show "\<exists>g'. apply_move k (Some m) g = (None, g') \<and>
          (if timers g ! k \<noteq> 0 \<and> timers g ! k \<noteq> 1
           then agents g' = (agents g)[k := starts g ! k] \<and> timers g' ! k = 0 \<and>
                score g' = score g + SCORE_GET_GHOST
           else agents g' = (agents g)[k := Some nv, 0 := None] \<and>
                score g' = score g + SCORE_DIE_PENALTY)"
    unfolding r using k(2) assms(4) by simp
next
  fix i vec m
  assume a: "agents g \<noteq> [] \<and> agents g ! 0 = Some vec \<and> vec_add vec (vector m) = nv \<and>
             py_index (ghosts g) (Some nv) = Inr i"
  then have p: "agents g \<noteq> []" "agents g ! 0 = Some vec" "vec_add vec (vector m) = nv"
    and i: "py_index (ghosts g) (Some nv) = Inr i" by simp_all
  show "\<exists>g'. apply_move 0 (Some m) g = (None, g') \<and>
          score g' = score g + SCORE_TICK_PENALTY
             + (if timers g ! Suc i \<noteq> 0 then SCORE_GET_GHOST else SCORE_DIE_PENALTY)
             + pickup_reward (getitem (statics g) nv) g' \<and>
          agents g' = (if timers g ! Suc i \<noteq> 0
                       then (agents g)[0 := Some nv, Suc i := starts g ! Suc i]
                       else (agents g)[0 := None]) \<and>
          (timers g ! Suc i \<noteq> 0 \<longrightarrow>
             timers g' ! Suc i =
               (if getitem (statics g) nv = Inr (Some Pellet) then SCARED_TIME else 0))"
    using player_moves_onto_ghost[OF assms p i] .
qed

text \<open>
  A corridor of three free cells between walls, Pacman at (1,0), a ghost with timer 5 at
  (2,0) whose start is (3,0). The ghost steps left onto Pacman and is sent home for 200;
  Pacman steps right onto the ghost and sends it home for 200 less the turn penalty.
\<close>

theorem encounter_resolution_witness:
  "(\<exists>g'. apply_move 1 (Some left)
           \<lparr>statics = [[Wall], [Empty], [Empty], [Empty], [Wall]], agents = [Some (1, 0), Some (2, 0)],
            starts = [Some (1, 0), Some (3, 0)], facings = [stop, stop], timers = [0, 5],
            score = 0, tick = 0\<rparr> = (None, g') \<and>
         agents g' = [Some (1, 0), Some (3, 0)] \<and> timers g' ! 1 = 0 \<and> score g' = 200) \<and>
   (\<exists>g'. apply_move 0 (Some right)
           \<lparr>statics = [[Wall], [Empty], [Empty], [Empty], [Wall]], agents = [Some (1, 0), Some (2, 0)],
            starts = [Some (1, 0), Some (3, 0)], facings = [stop, stop], timers = [0, 5],
            score = 0, tick = 0\<rparr> = (None, g') \<and>
         agents g' = [Some (2, 0), Some (3, 0)] \<and> timers g' ! 1 = 0 \<and> score g' = 199)"
proof -
  let ?g = "\<lparr>statics = [[Wall], [Empty], [Empty], [Empty], [Wall]], agents = [Some (1, 0), Some (2, 0)],
            starts = [Some (1, 0), Some (3, 0)], facings = [stop, stop], timers = [0, 5],
            score = 0, tick = 0\<rparr>"
  have r: "rectangular (statics ?g)" by (simp add: rectangular_def)
  have l: "length (starts ?g) = length (agents ?g)" "length (facings ?g) = length (agents ?g)"
    "length (timers ?g) = length (agents ?g)" by simp_all
  have f1: "getitem (walls ?g) (1, 0) \<noteq> Inr (Some True)" by code_simp
  have f2: "getitem (walls ?g) (2, 0) \<noteq> Inr (Some True)" by code_simp
  have i: "py_index (ghosts ?g) (Some (2, 0)) = Inr 0" by code_simp
  have c: "getitem (statics ?g) (2, 0) = Inr (Some Empty)" by code_simp
  from encounter_resolution[OF r l f1, THEN conjunct1, THEN spec, THEN spec, THEN spec, of 1 "(2, 0)" left]
  have 1: "\<exists>g'. apply_move 1 (Some left) ?g = (None, g') \<and>
         agents g' = [Some (1, 0), Some (3, 0)] \<and> timers g' ! 1 = 0 \<and> score g' = 200"
    by (simp add: vec_add_def SCORE_GET_GHOST_def)
  from encounter_resolution[OF r l f2, THEN conjunct2, THEN spec, THEN spec, THEN spec, of "(1, 0)" right 0] i c
  have 2: "\<exists>g'. apply_move 0 (Some right) ?g = (None, g') \<and>
         agents g' = [Some (2, 0), Some (3, 0)] \<and> timers g' ! 1 = 0 \<and> score g' = 199"
    by (auto simp: vec_add_def SCORE_GET_GHOST_def SCORE_TICK_PENALTY_def pickup_reward_def)
  from 1 2 show ?thesis by blast
qed

text \<open>
  The same corridor with the ghost's timer at 1. The timer is positive, yet when the ghost
  steps onto Pacman its own move has run the timer down: Pacman becomes absent and the
  score drops by 500. When Pacman steps onto the ghost instead, the ghost is sent home
  and the score changes by 199, not 200. The two directions resolve differently.
\<close>

theorem encounter_resolution_counterexample:
  "apply_move 1 (Some left)
      \<lparr>statics = [[Wall], [Empty], [Empty], [Empty], [Wall]], agents = [Some (1, 0), Some (2, 0)],
       starts = [Some (1, 0), Some (3, 0)], facings = [stop, stop], timers = [0, 1],
       score = 0, tick = 0\<rparr>
     = (None,
      \<lparr>statics = [[Wall], [Empty], [Empty], [Empty], [Wall]], agents = [None, Some (1, 0)],
       starts = [Some (1, 0), Some (3, 0)], facings = [stop, left], timers = [0, 0],
       score = - 500, tick = 0\<rparr>) \<and>
   apply_move 0 (Some right)
      \<lparr>statics = [[Wall], [Empty], [Empty], [Empty], [Wall]], agents = [Some (1, 0), Some (2, 0)],
       starts = [Some (1, 0), Some (3, 0)], facings = [stop, stop], timers = [0, 1],
       score = 0, tick = 0\<rparr>
     = (None,
      \<lparr>statics = [[Wall], [Empty], [Empty], [Empty], [Wall]], agents = [Some (2, 0), Some (3, 0)],
       starts = [Some (1, 0), Some (3, 0)], facings = [right, stop], timers = [0, 0],
       score = 199, tick = 0\<rparr>)"
  by code_simp

section \<open>Legal moves keep a gamestate playable\<close>

lemma copy_id [simp]: "copy g = g"
  by (cases g) (simp add: copy_def)

lemma blocked_walls_update:
  assumes r: "rectangular a" and c: "contains a v" and nw: "a ! nat (fst v) ! nat (snd v) \<noteq> Wall"
  shows "blocked (indicate (a[nat (fst v) := (a ! nat (fst v))[nat (snd v) := Empty]]) Wall) u
         = blocked (indicate a Wall) u"
proof -
  let ?a = "a[nat (fst v) := (a ! nat (fst v))[nat (snd v) := Empty]]"
  have r': "rectangular ?a" using r by (rule rectangular_update)
  have g: "\<And>b. rectangular b \<Longrightarrow> blocked (indicate b Wall) u
              = (getitem b u = Inr (Some Wall))"
  proof -
    fix b :: "layout_object array" assume b: "rectangular b"
    from getitem_indicate_rectangular[OF b, of Wall u] getitem_blocked[of "indicate b Wall" u] b
    have "blocked (indicate b Wall) u = (contains b u \<and> b ! nat (fst u) ! nat (snd u) = Wall)"
      by (auto split: if_splits)
    with getitem_rectangular[OF b, of u] show "blocked (indicate b Wall) u = (getitem b u = Inr (Some Wall))"
      by simp
  qed
  have "getitem ?a u = Inr (Some Wall) \<longleftrightarrow> getitem a u = Inr (Some Wall)"
  proof (cases "u = v")
    case True
    with getitem_update_same[OF r c, of Empty] getitem_rectangular[OF r, of v] nw c
    show ?thesis by simp
  next
    case False
    from c obtain c0 cs where a: "a = c0 # cs" and x: "0 \<le> fst v" "fst v < int (length a)"
      and y: "0 \<le> snd v" "snd v < int (length c0)"
      by (auto simp: contains_def split: list.splits)
    show ?thesis
    proof (cases "contains a u")
      case cu: True
      then have xu: "0 \<le> fst u" "fst u < int (length a)" and yu: "0 \<le> snd u"
        by (auto simp: contains_def split: list.splits)
      from False xu yu x y have "nat (fst u) \<noteq> nat (fst v) \<or> nat (snd u) \<noteq> nat (snd v)"
        by (metis nat_eq_iff prod.expand)
      then have "?a ! nat (fst u) ! nat (snd u) = a ! nat (fst u) ! nat (snd u)"
        using xu x by (auto simp: nth_list_update)
      then show ?thesis
        using getitem_rectangular[OF r, of u] getitem_rectangular[OF r', of u] cu by simp
    next
      case ncu: False
      then show ?thesis
        using getitem_rectangular[OF r, of u] getitem_rectangular[OF r', of u] by simp
    qed
  qed
  with g[OF r] g[OF r'] show ?thesis by simp
qed

lemma playable_lengths:
  "playable g \<Longrightarrow> 0 < length (agents g) \<and> Suc 0 < length (agents g) \<and> agents g \<noteq> []"
  by (auto simp: playable_def)

lemma playable_before_wall_test:
  assumes "playable g" "a < 2" "agents g ! a = Some vec"
    and "\<not> blocked (walls g) (vec_add vec (vector m))"
  shows "playable (before_wall_test a m vec g)"
proof -
  have w: "walls (before_wall_test a m vec g) = walls g"
    by (simp add: walls_def before_wall_test_def)
  from assms(2) have "a = 0 \<or> a = 1" by auto
  then show ?thesis
    using assms(1,3,4) playable_lengths[OF assms(1)] unfolding playable_def w
    by (auto simp: before_wall_test_def nth_list_update split: option.splits)
qed

lemma playable_resolve_encounter:
  assumes "playable g" "0 < k" "k < length (agents g)"
  shows "\<exists>g'. resolve_encounter k g = (None, g') \<and> playable g'"
proof -
  have kp: "k \<noteq> PACMAN_ID" using assms(2) by (simp add: PACMAN_ID_def)
  from assms(1,3) have l: "k < length (agents g)" "k < length (starts g)" "k < length (timers g)"
    by (simp_all add: playable_def)
  have "playable (g\<lparr>agents := (agents g)[k := starts g ! k], timers := (timers g)[k := 0],
                        score := score g + SCORE_GET_GHOST\<rparr>)"
    using assms playable_lengths[OF assms(1)] unfolding playable_def walls_def
    by (auto simp: nth_list_update split: option.splits)
  moreover have "playable (g\<lparr>agents := (agents g)[0 := None], score := score g + SCORE_DIE_PENALTY\<rparr>)"
    using assms playable_lengths[OF assms(1)] unfolding playable_def walls_def
    by (auto simp: nth_list_update split: option.splits)
  ultimately show ?thesis
    unfolding resolve_encounter_ghost[OF kp l] by simp
qed

lemma playable_meet_ghost:
  assumes "playable g"
  shows "\<exists>g'. meet_ghost nv g = (None, g') \<and> playable g'"
proof (cases "py_index (ghosts g) (Some nv)")
  case (Inl e)
  with assms show ?thesis by (simp add: meet_ghost_def)
next
  case (Inr i)
  from py_index_Inr[OF Inr] have "Suc i < length (agents g)"
    by (auto simp: ghosts_def PACMAN_ID_def)
  from playable_resolve_encounter[OF assms _ this] Inr show ?thesis
    by (simp add: meet_ghost_def)
qed

lemma playable_statics_update:
  assumes p: "playable g" and c: "getitem (statics g) v = Inr (Some x)" and x: "x \<noteq> Wall"
  shows "playable (g\<lparr>statics := (statics g)[nat (fst v) := (statics g ! nat (fst v))[nat (snd v) := Empty]]\<rparr>)"
proof -
  from p have r: "rectangular (statics g)" by (simp add: playable_def)
  from c getitem_rectangular[OF r, of v]
  have cv: "contains (statics g) v" and xv: "statics g ! nat (fst v) ! nat (snd v) = x"
    by (simp_all split: if_splits)
  note b = blocked_walls_update[OF r cv, unfolded xv, OF x]
  show ?thesis
    using p rectangular_update[OF r] unfolding playable_def walls_def
    by (auto simp: b split: option.splits)
qed

lemma playable_score [simp]: "playable (g\<lparr>score := s\<rparr>) = playable g"
  by (simp add: playable_def walls_def cong: option.case_cong)

lemma playable_eat_dot:
  assumes "playable g"
  shows "\<exists>g'. eat_dot v g = (None, g') \<and> playable g'"
proof -
  from assms have r: "rectangular (statics g)" by (simp add: playable_def)
  show ?thesis
  proof (cases "getitem (statics g) v = Inr (Some Dot)")
    case True
    from playable_statics_update[OF assms True] show ?thesis
      unfolding eat_dot_rectangular[OF r] using True by simp
  next
    case False
    with assms show ?thesis unfolding eat_dot_rectangular[OF r] by simp
  qed
qed

lemma playable_eat_pellet:
  assumes "playable g"
  shows "\<exists>g'. eat_pellet v g = (None, g') \<and> playable g'"
proof -
  from assms have r: "rectangular (statics g)" by (simp add: playable_def)
  show ?thesis
  proof (cases "getitem (statics g) v = Inr (Some Pellet)")
    case True
    let ?g1 = "g\<lparr>statics := (statics g)[nat (fst v) := (statics g ! nat (fst v))[nat (snd v) := Empty]]\<rparr>"
    from playable_statics_update[OF assms True] have "playable ?g1" by simp
    then have "playable (?g1\<lparr>score := score g + SCORE_GET_PELLET,
          timers := take 1 (timers g) @ replicate (length (timers g) - 1) SCARED_TIME\<rparr>)"
      unfolding playable_def walls_def by (auto split: option.splits)
    then show ?thesis
      unfolding eat_pellet_rectangular[OF r] using True by simp
  next
    case False
    with assms show ?thesis unfolding eat_pellet_rectangular[OF r] by simp
  qed
qed

lemma playable_successor:
  assumes p: "playable g" and a: "a < 2" and v: "agents g ! a = Some vec"
    and f: "\<not> blocked (walls g) (vec_add vec (vector m))"
  shows "\<exists>g'. successor g a (Some m) = Inr g' \<and> playable g'"
proof -
  let ?nv = "vec_add vec (vector m)"
  let ?g4 = "before_wall_test a m vec g"
  from p have r: "rectangular (statics g)" and l: "a < length (agents g)"
    "a < length (facings g)" "a < length (timers g)"
    using a by (simp_all add: playable_def)
  from r getitem_blocked[of "walls g" ?nv]
  obtain w where w: "getitem (walls g) ?nv = Inr w" "truthy w = blocked (walls g) ?nv" by auto
  with f have nw: "\<not> truthy w" by simp
  have p4: "playable ?g4" using p a v f by (rule playable_before_wall_test)
  note am = apply_move_alive[OF l(1) v l(2,3), of "Some m", unfolded Let_def, simplified]
  have "\<exists>g'. apply_move a (Some m) g = (None, g') \<and> playable g'"
  proof (cases "a = PACMAN_ID")
    case True
    from playable_meet_ghost[OF p4, of ?nv] obtain g5 where
      g5: "meet_ghost ?nv ?g4 = (None, g5)" "playable g5" by blast
    from playable_eat_dot[OF g5(2), of ?nv] obtain g6 where
      g6: "eat_dot ?nv g5 = (None, g6)" "playable g6" by blast
    from playable_eat_pellet[OF g6(2), of ?nv] obtain g7 where
      g7: "eat_pellet ?nv g6 = (None, g7)" "playable g7" by blast
    show ?thesis
      unfolding am using w nw True g5 g6 g7 by simp
  next
    case False
    with a have a1: "a = 1" by (simp add: PACMAN_ID_def)
    from playable_lengths[OF p4] have pac: "pacman ?g4 = Inr (agents ?g4 ! 0)"
      by (simp add: pacman_def PACMAN_ID_def)
    from p4 have "0 < a" "a < length (agents ?g4)" using a1 by (simp_all add: playable_def)
    from playable_resolve_encounter[OF p4 this] obtain g5 where
      g5: "resolve_encounter a ?g4 = (None, g5)" "playable g5" by blast
    show ?thesis
      unfolding am using w nw False pac g5 p4 by simp
  qed
  then show ?thesis by (auto simp: successor_def)
qed

section \<open>Pruning does not change the value\<close>

lemma fold_max_eq: "fold max ss (x :: 'a :: linorder) = (if ss = [] then x else max x (Max (set ss)))"
proof (induction ss arbitrary: x)
  case Nil
  show ?case by simp
next
  case (Cons s ss)
  show ?case
  proof (cases "ss = []")
    case True
    then show ?thesis by (simp add: max.commute)
  next
    case False
    then show ?thesis by (simp add: Cons.IH max.assoc max.commute max.left_commute)
  qed
qed

lemma fold_min_eq: "fold min ss (x :: 'a :: linorder) = (if ss = [] then x else min x (Min (set ss)))"
proof (induction ss arbitrary: x)
  case Nil
  show ?case by simp
next
  case (Cons s ss)
  show ?case
  proof (cases "ss = []")
    case True
    then show ?thesis by (simp add: min.commute)
  next
    case False
    then show ?thesis by (simp add: Cons.IH min.assoc min.commute min.left_commute)
  qed
qed

lemma agrees_max_break:
  fixes alpha :: "'a :: linorder"
  assumes "alpha < beta" "best \<le> alpha" "agrees mc vc alpha beta"
    and "beta \<le> max (max best vc) alpha"
  shows "agrees (fold max ss (max best mc)) (max best vc) alpha beta"
proof -
  from assms(1,2,4) have vb: "beta \<le> vc" by (auto simp: max_def split: if_splits)
  with assms(1,3) have mb: "beta \<le> mc" "vc \<le> mc"
    unfolding agrees_def by (metis leD leI order.strict_trans1)+
  have "mc \<le> fold max ss (max best mc)"
    by (simp add: fold_max_eq max.coboundedI1)
  with vb mb assms(1,2) show ?thesis
    unfolding agrees_def by (auto simp: max_def)
qed

lemma fold_max_two:
  fixes x y :: "'a :: linorder"
  obtains r where "fold max ss x = max x r" "fold max ss y = max y r"
proof (cases "ss = []")
  case True
  then have "fold max ss x = max x (min x y)" "fold max ss y = max y (min x y)"
    by (simp_all add: max_def min_def)
  then show ?thesis by (rule that)
next
  case False
  then have "fold max ss x = max x (Max (set ss))" "fold max ss y = max y (Max (set ss))"
    by (simp_all add: fold_max_eq)
  then show ?thesis by (rule that)
qed

lemma agrees_max_continue:
  fixes alpha :: "'a :: linorder"
  assumes ab: "alpha < beta" and ba: "best \<le> alpha" and c: "agrees mc vc alpha beta"
    and nb: "\<not> beta \<le> max (max best vc) alpha"
    and ih: "agrees (fold max ss (max best vc)) v (max (max best vc) alpha) beta"
  shows "agrees (fold max ss (max best mc)) v alpha beta"
proof -
  obtain r where r: "fold max ss (max best vc) = max (max best vc) r"
    "fold max ss (max best mc) = max (max best mc) r"
    by (rule fold_max_two)
  from nb have vb: "vc < beta" by (simp add: not_le)
  consider (lo) "mc \<le> alpha" | (mid) "alpha < mc" "mc < beta" | (hi) "beta \<le> mc"
    by (meson not_le)
  then show ?thesis
  proof cases
    case hi
    with c have "beta \<le> vc" by (simp add: agrees_def)
    with vb show ?thesis by simp
  next
    case lo
    with c have v: "mc \<le> vc" "vc \<le> alpha" by (simp_all add: agrees_def)
    with ba have a': "max (max best vc) alpha = alpha" by (simp add: max_def)
    note ih' = ih[unfolded a' r(1)]
    show ?thesis
    proof (cases "r \<le> alpha")
      case True
      define M where "M = max (max best mc) r"
      define M' where "M' = max (max best vc) r"
      from True v ba have "M' \<le> alpha" by (simp add: M'_def)
      with ih' have "M' \<le> v" "v \<le> alpha" by (simp_all add: agrees_def M'_def)
      moreover have "M \<le> M'"
        using v(1) by (simp add: M_def M'_def max.coboundedI1 max.coboundedI2)
      moreover have "M \<le> alpha" using True lo ba by (simp add: M_def)
      ultimately have "agrees M v alpha beta"
        unfolding agrees_def using ab by auto
      then show ?thesis by (simp add: r(2) M_def)
    next
      case False
      then have ar: "alpha < r" by simp
      have "best \<le> r" "vc \<le> r" "mc \<le> r" using v ba lo ar by order+
      then have "max best vc \<le> r" "max best mc \<le> r" by simp_all
      then have "max (max best vc) r = r" "max (max best mc) r = r"
        by (simp_all add: max_absorb2)
      with ih' r(2) show ?thesis by simp
    qed
  next
    case mid
    with c have vc: "vc = mc" by (simp add: agrees_def)
    from mid ba have "best \<le> mc" "alpha \<le> mc" by order+
    then have b': "max best mc = mc" "max mc alpha = mc" by (simp_all add: max_absorb2 max_absorb1)
    note ih' = ih[unfolded vc b' r(1)[unfolded vc b']]
    have ge: "mc \<le> max mc r" by simp
    have "agrees (max mc r) v alpha beta"
    proof (cases "max mc r = mc")
      case True
      with ih' have "mc \<le> v" "v \<le> mc" by (simp_all add: agrees_def)
      then have "v = mc" by order
      with True mid show ?thesis by (simp add: agrees_def)
    next
      case False
      with ge have "mc < max mc r" by order
      with ih' mid show ?thesis
        unfolding agrees_def by auto
    qed
    then show ?thesis using r(2) b' by simp
  qed
qed

lemma agrees_min_break:
  fixes alpha :: "'a :: linorder"
  assumes "alpha < beta" "beta \<le> best" "agrees mc vc alpha beta"
    and "min (min best vc) beta \<le> alpha"
  shows "agrees (fold min ss (min best mc)) (min best vc) alpha beta"
proof -
  from assms(1,2,4) have vb: "vc \<le> alpha" by (auto simp: min_def split: if_splits)
  with assms(1,3) have mb: "mc \<le> alpha" "mc \<le> vc"
    unfolding agrees_def by (metis leD leI order.strict_trans2)+
  have "fold min ss (min best mc) \<le> mc"
    by (simp add: fold_min_eq min.coboundedI1)
  with vb mb assms(1,2) show ?thesis
    unfolding agrees_def by (auto simp: min_def)
qed

lemma fold_min_two:
  fixes x y :: "'a :: linorder"
  obtains r where "fold min ss x = min x r" "fold min ss y = min y r"
proof (cases "ss = []")
  case True
  then have "fold min ss x = min x (max x y)" "fold min ss y = min y (max x y)"
    by (simp_all add: min_absorb1)
  then show ?thesis by (rule that)
next
  case False
  then have "fold min ss x = min x (Min (set ss))" "fold min ss y = min y (Min (set ss))"
    by (simp_all add: fold_min_eq)
  then show ?thesis by (rule that)
qed

lemma agrees_min_continue:
  fixes alpha :: "'a :: linorder"
  assumes ab: "alpha < beta" and ba: "beta \<le> best" and c: "agrees mc vc alpha beta"
    and nb: "\<not> min (min best vc) beta \<le> alpha"
    and ih: "agrees (fold min ss (min best vc)) v alpha (min (min best vc) beta)"
  shows "agrees (fold min ss (min best mc)) v alpha beta"
proof -
  obtain r where r: "fold min ss (min best vc) = min (min best vc) r"
    "fold min ss (min best mc) = min (min best mc) r"
    by (rule fold_min_two)
  from nb have vb: "alpha < vc" by (simp add: not_le)
  consider (lo) "mc \<le> alpha" | (mid) "alpha < mc" "mc < beta" | (hi) "beta \<le> mc"
    by (meson not_le)
  then show ?thesis
  proof cases
    case lo
    with c have "vc \<le> alpha" by (simp add: agrees_def)
    with vb show ?thesis by simp
  next
    case hi
    with c have v: "vc \<le> mc" "beta \<le> vc" by (simp_all add: agrees_def)
    with ba have a': "min (min best vc) beta = beta" by (simp add: min_def)
    note ih' = ih[unfolded a' r(1)]
    show ?thesis
    proof (cases "beta \<le> r")
      case True
      define M where "M = min (min best mc) r"
      define M' where "M' = min (min best vc) r"
      from True v ba have "beta \<le> M'" by (simp add: M'_def)
      with ih' have "v \<le> M'" "beta \<le> v" by (simp_all add: agrees_def M'_def)
      moreover have "M' \<le> M"
        using v(1) by (simp add: M_def M'_def min.coboundedI1 min.coboundedI2)
      moreover have "beta \<le> M" using True hi ba by (simp add: M_def)
      ultimately have "agrees M v alpha beta"
        unfolding agrees_def using ab by auto
      then show ?thesis by (simp add: r(2) M_def)
    next
      case False
      then have ar: "r < beta" by simp
      have "r \<le> best" "r \<le> vc" "r \<le> mc" using v ba hi ar by order+
      then have "r \<le> min best vc" "r \<le> min best mc" by simp_all
      then have "min (min best vc) r = r" "min (min best mc) r = r"
        by (simp_all add: min_absorb2)
      with ih' r(2) show ?thesis by simp
    qed
  next
    case mid
    with c have vc: "vc = mc" by (simp add: agrees_def)
    from mid ba have "mc \<le> best" "mc \<le> beta" by order+
    then have b': "min best mc = mc" "min mc beta = mc" by (simp_all add: min_absorb2 min_absorb1)
    note ih' = ih[unfolded vc b' r(1)[unfolded vc b']]
    have ge: "min mc r \<le> mc" by simp
    have "agrees (min mc r) v alpha beta"
    proof (cases "min mc r = mc")
      case True
      with ih' have "mc \<le> v" "v \<le> mc" by (simp_all add: agrees_def)
      then have "v = mc" by order
      with True mid show ?thesis by (simp add: agrees_def)
    next
      case False
      with ge have "min mc r < mc" by order
      with ih' mid show ?thesis
        unfolding agrees_def by auto
    qed
    then show ?thesis using r(2) b' by simp
  qed
qed

section \<open>Both searches return on playable states\<close>

lemma playable_loss: "playable g \<Longrightarrow> loss g = Inr (agents g ! 0 = None)"
  using playable_lengths[of g] by (simp add: loss_def pacman_def PACMAN_ID_def)

lemma playable_win: "playable g \<Longrightarrow> \<exists>w. win g = Inr w"
proof -
  assume p: "playable g"
  then have "rectangular (statics g)" by (simp add: playable_def)
  from list_arr_rectangular[OF this, of Dot] obtain ds where "list_arr (dots g) True = Inr ds"
    by (auto simp: dots_def)
  with playable_loss[OF p] show ?thesis by (auto simp: win_def)
qed

lemma playable_legal:
  assumes p: "playable g" and a: "a < 2" and v: "agents g ! a = Some vec"
  shows "\<exists>ms. legal_moves_id g a = Inr ms \<and> ms \<noteq> [] \<and>
              (\<forall>m \<in> set ms. \<not> blocked (walls g) (vec_add vec (vector m)))"
proof -
  from p have r: "rectangular (statics g)" by (simp add: playable_def)
  from a have "a = 0 \<or> a = 1" by auto
  with p v have nb: "\<not> blocked (walls g) vec" by (auto simp: playable_def)
  let ?ms = "filter (\<lambda>m. \<not> blocked (walls g) (vec_add vec (vector m))) Move"
  from a playable_lengths[OF p] have "a < length (agents g)" by auto
  with v have "legal_moves_id g a = Inr ?ms"
    by (simp add: legal_moves_id_def legal_moves_vector_rectangular[OF r])
  moreover have "stop \<in> set ?ms" using nb by (simp add: Move_def vec_add_def)
  then have "?ms \<noteq> []" by (metis empty_iff empty_set)
  ultimately show ?thesis by auto
qed

lemma py_max_nonempty: "ss \<noteq> [] \<Longrightarrow> py_max ss = Inr (fold max (tl ss) (hd ss))"
  by (cases ss) (simp_all add: py_max_def)

lemma py_min_nonempty: "ss \<noteq> [] \<Longrightarrow> py_min ss = Inr (fold min (tl ss) (hd ss))"
  by (cases ss) (simp_all add: py_min_def)

lemma minimax_total:
  "(\<forall>xs. set (order xs) = set xs) \<Longrightarrow> playable g \<Longrightarrow> \<exists>s. minimax ev order g d b = Inr s"
  "(\<forall>xs. set (order xs) = set xs) \<Longrightarrow> playable g \<Longrightarrow> a < 2 \<Longrightarrow>
     (\<exists>vec. agents g ! a = Some vec \<and>
            (\<forall>m \<in> set xs. \<not> blocked (walls g) (vec_add vec (vector m)))) \<Longrightarrow>
     \<exists>ss. minimax_scores ev order g a d b xs = Inr ss \<and> length ss = length xs"
proof (induction ev order g d b and ev order g a d b xs rule: minimax_minimax_scores.induct)
  case (1 evaluate order gstate maximizer)
  show ?case by simp
next
  case (2 evaluate order gstate d maximizer)
  note ord = "2.prems"(1) and p = "2.prems"(2)
  note l = playable_loss[OF p]
  from playable_win[OF p] obtain w where w: "win gstate = Inr w" by blast
  show ?case
  proof (cases "agents gstate ! 0 = None \<or> w")
    case True
    with l w show ?thesis by auto
  next
    case False
    then obtain vec where v0: "agents gstate ! 0 = Some vec" and nw: "\<not> w" by auto
    from l v0 have l': "loss gstate = Inr False" by simp
    show ?thesis
    proof (cases maximizer)
      case True
      from playable_legal[OF p _ v0] obtain ms where
        ms: "legal_moves_id gstate 0 = Inr ms" "ms \<noteq> []"
            "\<forall>m \<in> set ms. \<not> blocked (walls gstate) (vec_add vec (vector m))" by auto
      from ms(2) ord have ne: "order ms \<noteq> []" by (metis set_empty)
      from ms(3) ord v0
      have lg: "\<exists>vec. agents gstate ! 0 = Some vec \<and>
         (\<forall>m \<in> set (order ms). \<not> blocked (walls gstate) (vec_add vec (vector m)))" by simp
      from "2.IH"(1)[OF l' _ w nw True ms(1) ord p _ lg]
      obtain ss where ss: "minimax_scores evaluate order gstate 0 (Suc d) False (order ms) = Inr ss"
          "length ss = length (order ms)" by auto
      with ne have "ss \<noteq> []" by auto
      with ss l' w nw True ms(1) show ?thesis by (simp add: py_max_nonempty)
    next
      case False
      from p obtain vec1 where v1: "agents gstate ! 1 = Some vec1"
        by (auto simp: playable_def split: option.splits)
      from playable_legal[OF p _ v1] obtain ms where
        ms: "legal_moves_id gstate 1 = Inr ms" "ms \<noteq> []"
            "\<forall>m \<in> set ms. \<not> blocked (walls gstate) (vec_add vec1 (vector m))" by auto
      from ms(2) ord have ne: "order ms \<noteq> []" by (metis set_empty)
      from ms(3) ord v1
      have lg: "\<exists>vec. agents gstate ! 1 = Some vec \<and>
         (\<forall>m \<in> set (order ms). \<not> blocked (walls gstate) (vec_add vec (vector m)))" by simp
      from "2.IH"(2)[OF l' _ w nw False ms(1) ord p _ lg]
      obtain ss where ss: "minimax_scores evaluate order gstate 1 d True (order ms) = Inr ss"
          "length ss = length (order ms)" by auto
      with ne have "ss \<noteq> []" by auto
      with ss l' w nw False ms(1) show ?thesis by (simp add: py_min_nonempty)
    qed
  qed
next
  case (3 evaluate order gstate agent_id depth maximizer)
  show ?case by simp
next
  case (4 evaluate order gstate agent_id depth maximizer x xs)
  note ord = "4.prems"(1) and p = "4.prems"(2) and a = "4.prems"(3)
  from "4.prems"(4) obtain vec where v: "agents gstate ! agent_id = Some vec"
    and f: "\<not> blocked (walls gstate) (vec_add vec (vector x))"
    and fs: "\<forall>m \<in> set xs. \<not> blocked (walls gstate) (vec_add vec (vector m))" by auto
  from playable_successor[OF p a v f] obtain g' where
    g': "successor gstate agent_id (Some x) = Inr g'" "playable g'" by blast
  from "4.IH"(1)[OF g'(1) ord g'(2)] obtain s where
    s: "minimax evaluate order g' depth maximizer = Inr s" by blast
  from v fs have "\<exists>vec. agents gstate ! agent_id = Some vec \<and>
      (\<forall>m \<in> set xs. \<not> blocked (walls gstate) (vec_add vec (vector m)))" by blast
  from "4.IH"(2)[OF g'(1) s ord p a this] obtain ss where
    "minimax_scores evaluate order gstate agent_id depth maximizer xs = Inr ss"
    "length ss = length xs" by blast
  with g' s show ?case by simp
qed

section \<open>Alpha-beta against minimax\<close>

lemma NegInf_least [simp]: "NegInf \<le> x"
  by simp

lemma PosInf_greatest [simp]: "x \<le> PosInf"
  by (cases x) simp_all

lemma agrees_same: "agrees m m alpha beta"
  by (simp add: agrees_def)

lemma minimax_Suc_Inr:
  assumes "minimax ev order g (Suc d) b = Inr m"
  obtains (leaf) "alpha_beta ev order g (Suc d) b alpha beta = Inr (ev g, stop)" "m = ev g"
  | (inner_max) ms ss where "loss g = Inr False" "win g = Inr False" "b"
      "legal_moves_id g 0 = Inr ms"
      "minimax_scores ev order g 0 (Suc d) False (order ms) = Inr ss" "py_max ss = Inr m"
  | (inner_min) ms ss where "loss g = Inr False" "win g = Inr False" "\<not> b"
      "legal_moves_id g 1 = Inr ms"
      "minimax_scores ev order g 1 d True (order ms) = Inr ss" "py_min ss = Inr m"
  using assms by (auto split: sum.splits if_splits)

lemma py_max_Inr: "py_max ss = Inr m \<Longrightarrow> m = fold max ss NegInf"
  by (cases ss) (simp_all add: py_max_def max_absorb1)

lemma py_min_Inr: "py_min ss = Inr m \<Longrightarrow> m = fold min ss PosInf"
  by (cases ss) (simp_all add: py_min_def min_absorb1)

lemma minimax_scores_Cons_Inr:
  assumes "minimax_scores ev order g a d b (x # xs) = Inr ss"
  obtains g' mc ss' where "successor g a (Some x) = Inr g'" "minimax ev order g' d b = Inr mc"
    "minimax_scores ev order g a d b xs = Inr ss'" "ss = mc # ss'"
  using assms by (auto split: sum.splits)

lemma alpha_beta_agrees:
  "minimax ev order g d b = Inr m \<Longrightarrow> alpha < beta \<Longrightarrow>
     \<exists>v mv. alpha_beta ev order g d b alpha beta = Inr (v, mv) \<and> agrees m v alpha beta"
  "minimax_scores ev order g 0 depth False ms = Inr ss \<Longrightarrow> alpha < beta \<Longrightarrow> best \<le> alpha \<Longrightarrow>
     \<exists>v mv. max_loop ev order g depth ms best act alpha beta = Inr (v, mv) \<and>
            agrees (fold max ss best) v alpha beta"
  "minimax_scores ev order g 1 depth True ms = Inr ss \<Longrightarrow> alpha < beta \<Longrightarrow> beta \<le> best \<Longrightarrow>
     \<exists>v mv. min_loop ev order g depth ms best act alpha beta = Inr (v, mv) \<and>
            agrees (fold min ss best) v alpha beta"
proof (induction ev order g d b alpha beta and ev order g depth ms best act alpha beta
         and ev order g depth ms best act alpha beta
       arbitrary: m and ss and ss rule: alpha_beta_max_loop_min_loop.induct)
  case (1 evaluate order gstate maximizer alpha beta)
  then show ?case by (simp add: agrees_same)
next
  case (2 evaluate order gstate d maximizer alpha beta)
  note ab = "2.prems"(2)
  from "2.prems"(1) show ?case
  proof (cases rule: minimax_Suc_Inr[where alpha = alpha and beta = beta])
    case leaf
    then show ?thesis by (simp add: agrees_same)
  next
    case (inner_max ms ss)
    from "2.IH"(1)[OF inner_max(1) _ inner_max(2) _ inner_max(3,4,5) ab]
    obtain v mv where
      "max_loop evaluate order gstate (Suc d) (order ms) NegInf stop alpha beta = Inr (v, mv)"
      "agrees (fold max ss NegInf) v alpha beta" by auto
    with inner_max py_max_Inr[OF inner_max(6)] show ?thesis by simp
  next
    case (inner_min ms ss)
    from "2.IH"(2)[OF inner_min(1) _ inner_min(2) _ inner_min(3,4,5) ab]
    obtain v mv where
      "min_loop evaluate order gstate d (order ms) PosInf stop alpha beta = Inr (v, mv)"
      "agrees (fold min ss PosInf) v alpha beta" by auto
    with inner_min py_min_Inr[OF inner_min(6)] show ?thesis by simp
  qed
next
  case (3 evaluate order gstate depth best_score best_action alpha beta)
  then show ?case by (auto simp: agrees_def)
next
  case (4 evaluate order gstate depth move rest best_score best_action alpha beta)
  note ab = "4.prems"(2) and ba = "4.prems"(3)
  from "4.prems"(1) obtain g' mc ss' where
    g': "successor gstate 0 (Some move) = Inr g'" and
    mc: "minimax evaluate order g' depth False = Inr mc" and
    ss': "minimax_scores evaluate order gstate 0 depth False rest = Inr ss'" and
    ss: "ss = mc # ss'"
    by (rule minimax_scores_Cons_Inr)
  from "4.IH"(1)[OF g' mc ab] obtain vc mvc where
    c: "alpha_beta evaluate order g' depth False alpha beta = Inr (vc, mvc)"
       "agrees mc vc alpha beta" by blast
  have bs: "(if best_score < vc then vc else best_score) = max best_score vc"
    by (auto simp: max_def)
  define act' where "act' = (if best_score < vc then move else best_action)"
  show ?case
  proof (cases "beta \<le> max (max best_score vc) alpha")
    case True
    from agrees_max_break[OF ab ba c(2) True, of ss']
    have "agrees (fold max ss best_score) (max best_score vc) alpha beta"
      by (simp add: ss max.commute)
    with True g' c show ?thesis by (simp add: bs Let_def)
  next
    case False
    have a'b: "max (max best_score vc) alpha < beta" using False by (rule not_le_imp_less)
    have xe: "vc = fst (vc, mvc)" by simp
    have le': "max best_score vc \<le> max (max best_score vc) alpha" by simp
    from "4.IH"(2)[OF g' c(1) xe bs[symmetric] act'_def refl False ss' a'b le']
    obtain v mv where r:
      "max_loop evaluate order gstate depth rest (max best_score vc) act'
          (max (max best_score vc) alpha) beta = Inr (v, mv)"
      "agrees (fold max ss' (max best_score vc)) v (max (max best_score vc) alpha) beta"
      by blast
    from agrees_max_continue[OF ab ba c(2) False r(2)]
    have "agrees (fold max ss best_score) v alpha beta"
      by (simp add: ss max.commute)
    with False g' c r show ?thesis by (simp add: bs Let_def act'_def)
  qed
next
  case (5 evaluate order gstate depth best_score best_action alpha beta)
  then show ?case by (auto simp: agrees_def)
next
  case (6 evaluate order gstate depth move rest best_score best_action alpha beta)
  note ab = "6.prems"(2) and ba = "6.prems"(3)
  from "6.prems"(1) obtain g' mc ss' where
    g': "successor gstate 1 (Some move) = Inr g'" and
    mc: "minimax evaluate order g' depth True = Inr mc" and
    ss': "minimax_scores evaluate order gstate 1 depth True rest = Inr ss'" and
    ss: "ss = mc # ss'"
    by (rule minimax_scores_Cons_Inr)
  from "6.IH"(1)[OF g' mc ab] obtain vc mvc where
    c: "alpha_beta evaluate order g' depth True alpha beta = Inr (vc, mvc)"
       "agrees mc vc alpha beta" by blast
  have bs: "(if vc < best_score then vc else best_score) = min best_score vc"
    by (auto simp: min_def)
  define act' where "act' = (if vc < best_score then move else best_action)"
  show ?case
  proof (cases "min (min best_score vc) beta \<le> alpha")
    case True
    from agrees_min_break[OF ab ba c(2) True, of ss']
    have "agrees (fold min ss best_score) (min best_score vc) alpha beta"
      by (simp add: ss min.commute)
    with True g' c show ?thesis by (simp add: bs Let_def)
  next
    case False
    have a'b: "alpha < min (min best_score vc) beta" using False by (rule not_le_imp_less)
    have xe: "vc = fst (vc, mvc)" by simp
    have le': "min (min best_score vc) beta \<le> min best_score vc" by (rule min.cobounded1)
    from "6.IH"(2)[OF g' c(1) xe bs[symmetric] act'_def refl False ss' a'b le']
    obtain v mv where r:
      "min_loop evaluate order gstate depth rest (min best_score vc) act'
          alpha (min (min best_score vc) beta) = Inr (v, mv)"
      "agrees (fold min ss' (min best_score vc)) v alpha (min (min best_score vc) beta)"
      by blast
    from agrees_min_continue[OF ab ba c(2) False r(2)]
    have "agrees (fold min ss best_score) v alpha beta"
      by (simp add: ss min.commute)
    with False g' c r show ?thesis by (simp add: bs Let_def act'_def)
  qed
qed

lemma agrees_full_window:
  assumes "agrees m v NegInf PosInf"
  shows "v = m"
proof (cases m)
  case NegInf
  with assms have "v \<le> NegInf" by (simp add: agrees_def)
  with NegInf show ?thesis by (cases v) simp_all
next
  case (Fin a)
  then have "NegInf < m" "m < PosInf" by (simp_all add: less_score_def)
  with assms show ?thesis by (simp add: agrees_def)
next
  case PosInf
  with assms have "PosInf \<le> v" by (simp add: agrees_def)
  with PosInf show ?thesis by (cases v) simp_all
qed

text \<open>
  Claim C1. For every gamestate, depth, evaluation function and order in which the legal
  moves are listed: whenever \<^verbatim>\<open>minimax(s, d, True)\<close> returns a score,
  \<^verbatim>\<open>alpha_beta(s, d, True, -inf, +inf)\<close> returns the same score. On a playable gamestate
  both do return. (The moves are left open: minimax draws its move at random among the
  best ones.)
\<close>

theorem alpha_beta_minimax_same_score:
  "(\<forall>m. minimax evaluate order s d True = Inr m \<longrightarrow>
        (\<exists>mv. alpha_beta evaluate order s d True NegInf PosInf = Inr (m, mv))) \<and>
   ((\<forall>xs. set (order xs) = set xs) \<and> playable s \<longrightarrow>
        (\<exists>v mv. alpha_beta evaluate order s d True NegInf PosInf = Inr (v, mv) \<and>
                minimax evaluate order s d True = Inr v))"
proof -
  have w: "(NegInf :: 'a score) < PosInf" by (simp add: less_score_def)
  have 1: "\<exists>mv. alpha_beta evaluate order s d True NegInf PosInf = Inr (m, mv)"
    if "minimax evaluate order s d True = Inr m" for m
  proof -
    from alpha_beta_agrees(1)[OF that w] obtain v mv where
      "alpha_beta evaluate order s d True NegInf PosInf = Inr (v, mv)" "agrees m v NegInf PosInf"
      by blast
    with agrees_full_window show ?thesis by blast
  qed
  have 2: "\<exists>v mv. alpha_beta evaluate order s d True NegInf PosInf = Inr (v, mv) \<and>
                minimax evaluate order s d True = Inr v"
    if "(\<forall>xs. set (order xs) = set xs) \<and> playable s"
  proof -
    from that minimax_total(1)[of order s evaluate d True] obtain m where
      m: "minimax evaluate order s d True = Inr m" by blast
    with 1[OF m] show ?thesis by blast
  qed
  from 1 2 show ?thesis by blast
qed

text \<open>
  A corridor with two dots, Pacman at its left end and a ghost at its right end, searched
  to depth 2 with the current score as evaluation: both searches return 8.
\<close>

theorem alpha_beta_minimax_same_score_witness:
  "playable \<lparr>statics = [[Wall, Wall, Wall], [Wall, Empty, Wall], [Wall, Dot, Wall], [Wall, Empty, Wall],
                    [Wall, Dot, Wall], [Wall, Empty, Wall], [Wall, Wall, Wall]],
          agents = [Some (1, 1), Some (5, 1)], starts = [Some (1, 1), Some (5, 1)],
          facings = [stop, stop], timers = [0, 0], score = 0, tick = 0\<rparr> \<and>
   alpha_beta (\<lambda>g. Fin (score g)) (\<lambda>xs. xs)
      \<lparr>statics = [[Wall, Wall, Wall], [Wall, Empty, Wall], [Wall, Dot, Wall], [Wall, Empty, Wall],
                    [Wall, Dot, Wall], [Wall, Empty, Wall], [Wall, Wall, Wall]],
          agents = [Some (1, 1), Some (5, 1)], starts = [Some (1, 1), Some (5, 1)],
          facings = [stop, stop], timers = [0, 0], score = 0, tick = 0\<rparr>
      2 True NegInf PosInf = Inr (Fin 8, right) \<and>
   minimax (\<lambda>g. Fin (score g)) (\<lambda>xs. xs)
      \<lparr>statics = [[Wall, Wall, Wall], [Wall, Empty, Wall], [Wall, Dot, Wall], [Wall, Empty, Wall],
                    [Wall, Dot, Wall], [Wall, Empty, Wall], [Wall, Wall, Wall]],
          agents = [Some (1, 1), Some (5, 1)], starts = [Some (1, 1), Some (5, 1)],
          facings = [stop, stop], timers = [0, 0], score = 0, tick = 0\<rparr>
      2 True = Inr (Fin 8)"
proof -
  let ?g = "\<lparr>statics = [[Wall, Wall, Wall], [Wall, Empty, Wall], [Wall, Dot, Wall], [Wall, Empty, Wall],
                    [Wall, Dot, Wall], [Wall, Empty, Wall], [Wall, Wall, Wall]],
          agents = [Some (1, 1), Some (5, 1)], starts = [Some (1, 1), Some (5, 1)],
          facings = [stop, stop], timers = [0, 0], score = 0, tick = 0\<rparr>"
  have "playable ?g" by code_simp
  then have p: "(\<forall>xs :: move list. set ((\<lambda>xs. xs) xs) = set xs) \<and> playable ?g" by simp
  have ab: "alpha_beta (\<lambda>g. Fin (score g)) (\<lambda>xs. xs) ?g 2 True NegInf PosInf = Inr (Fin 8, right)"
    by code_simp
  from conjunct2[OF alpha_beta_minimax_same_score, THEN mp, OF p, of "\<lambda>g. Fin (score g)" 2] ab
  have "minimax (\<lambda>g. Fin (score g)) (\<lambda>xs. xs) ?g 2 True = Inr (Fin 8)" by simp
  with p ab show ?thesis by simp
qed

section \<open>Search without a reachable goal\<close>

lemma new_nodes_states:
  "fst ` set (new_nodes path cost explored succs) \<subseteq> fst ` set succs"
  by (force simp: new_nodes_def)

lemma closed_step:
  assumes "closed_without_goal rep S" "s \<in> S"
  obtains succs where "is_goal rep s = Inr False" "successors rep s = Inr succs"
    "fst ` set (new_nodes path cost explored succs) \<subseteq> S"
proof -
  from assms obtain succs where a: "is_goal rep s = Inr False" "successors rep s = Inr succs"
    "\<forall>n \<in> set succs. fst n \<in> S" by (auto simp: closed_without_goal_def)
  from a(3) new_nodes_states[of path cost explored succs]
  have "fst ` set (new_nodes path cost explored succs) \<subseteq> S" by fastforce
  with a(1,2) show ?thesis by (rule that)
qed

lemma card_explore:
  assumes "finite S" "s \<in> S" "s \<notin> explored"
  shows "card (S - insert s explored) < card (S - explored)"
proof -
  have "S - insert s explored \<subset> S - explored" using assms by auto
  then show ?thesis using assms(1) by (simp add: psubset_card_mono)
qed

lemma depthfirst_loop_exhausts:
  assumes c: "closed_without_goal rep S"
  shows "fst ` set frontier \<subseteq> S \<Longrightarrow> explored \<subseteq> S \<Longrightarrow>
           depthfirst_loop rep frontier explored = Some (Inr None)"
proof (induction "card (S - explored)" arbitrary: frontier explored rule: less_induct)
  case less
  from less.prems show ?case
  proof (induction frontier)
    case Nil
    show ?case by (subst depthfirst_loop.simps) simp
  next
    case (Cons node rest)
    show ?case
    proof (cases "fst node \<in> explored")
      case True
      with Cons show ?thesis by (subst depthfirst_loop.simps) simp
    next
      case False
      from Cons.prems have s: "fst node \<in> S" by simp
      from c s obtain succs where st: "is_goal rep (fst node) = Inr False"
        "successors rep (fst node) = Inr succs"
        "fst ` set (new_nodes (fst (snd node)) (snd (snd node)) (insert (fst node) explored) succs) \<subseteq> S"
        by (rule closed_step)
      from c have "finite S" by (simp add: closed_without_goal_def)
      from card_explore[OF this s False]
      have "depthfirst_loop rep
              (rev (new_nodes (fst (snd node)) (snd (snd node)) (insert (fst node) explored) succs) @ rest)
              (insert (fst node) explored) = Some (Inr None)"
        using st(3) Cons.prems s by (intro less.hyps) auto
      with False st show ?thesis by (subst depthfirst_loop.simps) simp
    qed
  qed
qed

lemma breadthfirst_loop_exhausts:
  assumes c: "closed_without_goal rep S"
  shows "fst ` set frontier \<subseteq> S \<Longrightarrow> explored \<subseteq> S \<Longrightarrow>
           breadthfirst_loop rep frontier explored = Some (Inr None)"
proof (induction "card (S - explored)" arbitrary: frontier explored rule: less_induct)
  case less
  from less.prems show ?case
  proof (induction frontier)
    case Nil
    show ?case by (subst breadthfirst_loop.simps) simp
  next
    case (Cons node rest)
    show ?case
    proof (cases "fst node \<in> explored")
      case True
      with Cons show ?thesis by (subst breadthfirst_loop.simps) simp
    next
      case False
      from Cons.prems have s: "fst node \<in> S" by simp
      from c s obtain succs where st: "is_goal rep (fst node) = Inr False"
        "successors rep (fst node) = Inr succs"
        "fst ` set (new_nodes (fst (snd node)) (snd (snd node)) (insert (fst node) explored) succs) \<subseteq> S"
        by (rule closed_step)
      from c have "finite S" by (simp add: closed_without_goal_def)
      from card_explore[OF this s False]
      have "breadthfirst_loop rep
              (rest @ new_nodes (fst (snd node)) (snd (snd node)) (insert (fst node) explored) succs)
              (insert (fst node) explored) = Some (Inr None)"
        using st(3) Cons.prems s by (intro less.hyps) auto
      with False st show ?thesis by (subst breadthfirst_loop.simps) simp
    qed
  qed
qed

lemma pq_get_props:
  assumes "q \<noteq> []"
  shows "fst (pq_get q) \<in> set q" "set (snd (pq_get q)) \<subseteq> set q" "length (snd (pq_get q)) < length q"
proof -
  from assms have m: "Min (set q) \<in> set q" by (intro Min_in) auto
  then show "fst (pq_get q) \<in> set q" by (simp add: pq_get_def)
  show "set (snd (pq_get q)) \<subseteq> set q" by (simp add: pq_get_def set_remove1_subset)
  from m have "length (remove1 (Min (set q)) q) = length q - 1" by (simp add: length_remove1)
  moreover from assms have "0 < length q" by simp
  ultimately show "length (snd (pq_get q)) < length q" by (simp add: pq_get_def)
qed

lemma uniformcost_loop_exhausts:
  assumes c: "closed_without_goal rep S"
  shows "(fst \<circ> snd) ` set frontier \<subseteq> S \<Longrightarrow> explored \<subseteq> S \<Longrightarrow>
           uniformcost_loop rep frontier explored = Some (Inr None)"
proof (induction "card (S - explored)" arbitrary: frontier explored rule: less_induct)
  case less
  from less.prems show ?case
  proof (induction "length frontier" arbitrary: frontier rule: less_induct)
    case inner: less
    show ?case
    proof (cases "frontier = []")
      case True
      then show ?thesis by (subst uniformcost_loop.simps) simp
    next
      case ne: False
      let ?node = "snd (fst (pq_get frontier))" and ?rest = "snd (pq_get frontier)"
      note g = pq_get_props[OF ne]
      from g(1) inner.prems(1) have s: "fst ?node \<in> S" by auto
      from g(2) inner.prems(1) have rs: "(fst \<circ> snd) ` set ?rest \<subseteq> S" by auto
      show ?thesis
      proof (cases "fst ?node \<in> explored")
        case True
        from inner.hyps[OF g(3) rs inner.prems(2)] True ne show ?thesis
          by (subst uniformcost_loop.simps) (simp add: Let_def)
      next
        case False
        from c s obtain succs where st: "is_goal rep (fst ?node) = Inr False"
          "successors rep (fst ?node) = Inr succs"
          "fst ` set (new_nodes (fst (snd ?node)) (snd (snd ?node)) (insert (fst ?node) explored) succs) \<subseteq> S"
          by (rule closed_step)
        from c have "finite S" by (simp add: closed_without_goal_def)
        from card_explore[OF this s False]
        have "uniformcost_loop rep
                (?rest @ map (\<lambda>n. (snd (snd n), n))
                   (new_nodes (fst (snd ?node)) (snd (snd ?node)) (insert (fst ?node) explored) succs))
                (insert (fst ?node) explored) = Some (Inr None)"
          using st(3) rs inner.prems(2) s by (intro less.hyps) (auto simp: image_Un image_comp)
        with False st ne show ?thesis
          by (subst uniformcost_loop.simps) (simp add: Let_def)
      qed
    qed
  qed
qed


lemma pfq_get_props:
  assumes "q \<noteq> []"
  shows "fst (pfq_get q) \<in> snd ` set q" "set (snd (pfq_get q)) \<subseteq> set q"
    "length (snd (pfq_get q)) < length q"
proof -
  let ?k = "Min (set (map fst q))"
  let ?e = "hd (filter (\<lambda>e. fst e = ?k) q)"
  from assms have "?k \<in> set (map fst q)" by (intro Min_in) auto
  then obtain e0 where "e0 \<in> set q" "fst e0 = ?k" by auto
  then have "filter (\<lambda>e. fst e = ?k) q \<noteq> []" by (auto simp: filter_empty_conv)
  then have "?e \<in> set (filter (\<lambda>e. fst e = ?k) q)" by (rule hd_in_set)
  then have e: "?e \<in> set q" by simp
  then show "fst (pfq_get q) \<in> snd ` set q" by (simp add: pfq_get_def Let_def)
  show "set (snd (pfq_get q)) \<subseteq> set q" by (simp add: pfq_get_def Let_def set_remove1_subset)
  from e have "length (remove1 ?e q) = length q - 1" by (simp add: length_remove1)
  moreover from assms have "0 < length q" by simp
  ultimately show "length (snd (pfq_get q)) < length q" by (simp add: pfq_get_def Let_def)
qed

lemma pfq_put_all_items:
  "snd ` set (fst (pfq_put_all f (q, n) items)) = snd ` set q \<union> set items"
  by (induction items arbitrary: q n) auto

lemma astar_loop_exhausts:
  assumes c: "closed_without_goal rep S"
  shows "(fst \<circ> snd) ` set (fst frontier) \<subseteq> S \<Longrightarrow> explored \<subseteq> S \<Longrightarrow>
           astar_loop rep h frontier explored = Some (Inr None)"
proof (induction "card (S - explored)" arbitrary: frontier explored rule: less_induct)
  case less
  from less.prems show ?case
  proof (induction "length (fst frontier)" arbitrary: frontier rule: less_induct)
    case inner: less
    show ?case
    proof (cases "fst frontier = []")
      case True
      then show ?thesis by (subst astar_loop.simps) simp
    next
      case ne: False
      let ?node = "fst (pfq_get (fst frontier))"
      let ?rest = "(snd (pfq_get (fst frontier)), snd frontier)"
      note g = pfq_get_props[OF ne]
      from g(1) inner.prems(1) have s: "fst ?node \<in> S" by auto
      from g(2) inner.prems(1) have rs: "(fst \<circ> snd) ` set (fst ?rest) \<subseteq> S" by auto
      show ?thesis
      proof (cases "fst ?node \<in> explored")
        case True
        have "length (fst ?rest) < length (fst frontier)" using g(3) by simp
        from inner.hyps[OF this rs inner.prems(2)] True ne show ?thesis
          by (subst astar_loop.simps) (simp add: Let_def)
      next
        case False
        from c s obtain succs where st: "is_goal rep (fst ?node) = Inr False"
          "successors rep (fst ?node) = Inr succs"
          "fst ` set (new_nodes (fst (snd ?node)) (snd (snd ?node)) (insert (fst ?node) explored) succs) \<subseteq> S"
          by (rule closed_step)
        let ?new = "new_nodes (fst (snd ?node)) (snd (snd ?node)) (insert (fst ?node) explored) succs"
        let ?f = "\<lambda>n. h (fst n) rep + snd (snd n)"
        have "snd ` set (fst (pfq_put_all ?f ?rest ?new)) = snd ` set (fst ?rest) \<union> set ?new"
          using pfq_put_all_items[of ?f "fst ?rest" "snd ?rest" ?new] by simp
        then have "fst ` snd ` set (fst (pfq_put_all ?f ?rest ?new))
                     = fst ` (snd ` set (fst ?rest) \<union> set ?new)"
          by (rule arg_cong)
        then have "(fst \<circ> snd) ` set (fst (pfq_put_all ?f ?rest ?new))
                     = (fst \<circ> snd) ` set (fst ?rest) \<union> fst ` set ?new"
          unfolding image_Un image_comp .
        with rs st(3) have fr: "(fst \<circ> snd) ` set (fst (pfq_put_all ?f ?rest ?new)) \<subseteq> S" by simp
        from c have "finite S" by (simp add: closed_without_goal_def)
        from card_explore[OF this s False]
        have "astar_loop rep h (pfq_put_all ?f ?rest ?new) (insert (fst ?node) explored) = Some (Inr None)"
          using fr inner.prems(2) s by (intro less.hyps) auto
        with False st ne show ?thesis
          by (subst astar_loop.simps) (simp add: Let_def)
      qed
    qed
  qed
qed

text \<open>
  Claim C5. When the states that can be reached from the start are finitely many and the
  goal test fails on all of them, each of the four search functions returns, and what it
  returns is None, not an exception.
\<close>

theorem search_without_goal_returns_None:
  assumes "closed_without_goal representation S"
  shows "depthfirst representation = Some (Inr None) \<and>
         breadthfirst representation = Some (Inr None) \<and>
         uniformcost representation = Some (Inr None) \<and>
         astar representation heuristic = Some (Inr None)"
proof -
  from assms have s: "start representation \<in> S" by (simp add: closed_without_goal_def)
  have "depthfirst representation = Some (Inr None)"
    unfolding depthfirst_def using s by (intro depthfirst_loop_exhausts[OF assms]) simp_all
  moreover have "breadthfirst representation = Some (Inr None)"
    unfolding breadthfirst_def using s by (intro breadthfirst_loop_exhausts[OF assms]) simp_all
  moreover have "uniformcost representation = Some (Inr None)"
    unfolding uniformcost_def using s by (intro uniformcost_loop_exhausts[OF assms]) simp_all
  moreover have "astar representation heuristic = Some (Inr None)"
    unfolding astar_def using s by (intro astar_loop_exhausts[OF assms]) simp_all
  ultimately show ?thesis by simp
qed


text \<open>
  A walled maze whose free cells form a U; the goal (2,2) is a wall cell inside the U.
  All four searches, started at (1,1) with unit costs, return None.
\<close>

theorem search_without_goal_returns_None_witness:
  "closed_without_goal
     (position_search
        \<lparr>statics = [[Wall, Wall, Wall, Wall], [Wall, Empty, Empty, Wall], [Wall, Empty, Wall, Wall],
                    [Wall, Empty, Empty, Wall], [Wall, Wall, Wall, Wall]],
         agents = [Some (1, 1)], starts = [Some (1, 1)], facings = [stop], timers = [0],
         score = 0, tick = 0\<rparr> (1, 1) (2, 2) (\<lambda>v. 1 :: int))
     {(1, 1), (1, 2), (2, 1), (3, 1), (3, 2)} \<and>
   depthfirst (position_search
        \<lparr>statics = [[Wall, Wall, Wall, Wall], [Wall, Empty, Empty, Wall], [Wall, Empty, Wall, Wall],
                    [Wall, Empty, Empty, Wall], [Wall, Wall, Wall, Wall]],
         agents = [Some (1, 1)], starts = [Some (1, 1)], facings = [stop], timers = [0],
         score = 0, tick = 0\<rparr> (1, 1) (2, 2) (\<lambda>v. 1 :: int)) = Some (Inr None) \<and>
   breadthfirst (position_search
        \<lparr>statics = [[Wall, Wall, Wall, Wall], [Wall, Empty, Empty, Wall], [Wall, Empty, Wall, Wall],
                    [Wall, Empty, Empty, Wall], [Wall, Wall, Wall, Wall]],
         agents = [Some (1, 1)], starts = [Some (1, 1)], facings = [stop], timers = [0],
         score = 0, tick = 0\<rparr> (1, 1) (2, 2) (\<lambda>v. 1 :: int)) = Some (Inr None) \<and>
   uniformcost (position_search
        \<lparr>statics = [[Wall, Wall, Wall, Wall], [Wall, Empty, Empty, Wall], [Wall, Empty, Wall, Wall],
                    [Wall, Empty, Empty, Wall], [Wall, Wall, Wall, Wall]],
         agents = [Some (1, 1)], starts = [Some (1, 1)], facings = [stop], timers = [0],
         score = 0, tick = 0\<rparr> (1, 1) (2, 2) (\<lambda>v. 1 :: int)) = Some (Inr None) \<and>
   astar (position_search
        \<lparr>statics = [[Wall, Wall, Wall, Wall], [Wall, Empty, Empty, Wall], [Wall, Empty, Wall, Wall],
                    [Wall, Empty, Empty, Wall], [Wall, Wall, Wall, Wall]],
         agents = [Some (1, 1)], starts = [Some (1, 1)], facings = [stop], timers = [0],
         score = 0, tick = 0\<rparr> (1, 1) (2, 2) (\<lambda>v. 1 :: int)) null = Some (Inr None)"
proof -
  let ?rep = "position_search
        \<lparr>statics = [[Wall, Wall, Wall, Wall], [Wall, Empty, Empty, Wall], [Wall, Empty, Wall, Wall],
                    [Wall, Empty, Empty, Wall], [Wall, Wall, Wall, Wall]],
         agents = [Some (1, 1)], starts = [Some (1, 1)], facings = [stop], timers = [0],
         score = 0, tick = 0\<rparr> (1, 1) (2, 2) (\<lambda>v. 1 :: int)"
  have c: "closed_without_goal ?rep {(1, 1), (1, 2), (2, 1), (3, 1), (3, 2)}"
    by (simp add: closed_without_goal_def position_search_def position_is_goal_def
          position_successors_def no_stop_def Move_def walls_def indicate_def map_2d_def
          getitem_def contains_def setitem_def py_get_def py_set_def shape_def vec_add_def
          numeral_2_eq_2 numeral_3_eq_3 eval_nat_numeral)
  from search_without_goal_returns_None[OF c, of null] c show ?thesis by simp
qed

section \<open>Breadth-first search on positions\<close>

lemma replay_append [simp]: "replay v (p @ q) = replay (replay v p) q"
  by (induction p arbitrary: v) simp_all

lemma wall_free_append [simp]:
  "wall_free w v (p @ q) = (wall_free w v p \<and> wall_free w (replay v p) q)"
  by (induction p arbitrary: v) auto

lemma drop_stops:
  "wall_free w v q \<Longrightarrow> wall_free w v (filter (\<lambda>m. m \<noteq> stop) q) \<and>
     replay v (filter (\<lambda>m. m \<noteq> stop) q) = replay v q"
  by (induction q arbitrary: v) (auto simp: vec_add_def)

lemma position_successors_loop_rectangular:
  assumes "rectangular wls"
  shows "position_successors_loop wls cost_fn v ms =
           Inr (map (\<lambda>m. (vec_add v (vector m), [m], cost_fn (vec_add v (vector m))))
                    (filter (\<lambda>m. \<not> blocked wls (vec_add v (vector m))) ms))"
proof (induction ms)
  case Nil
  show ?case by simp
next
  case (Cons m ms)
  from assms getitem_blocked[of wls "vec_add v (vector m)"]
  obtain r where "getitem wls (vec_add v (vector m)) = Inr r"
    "truthy r = blocked wls (vec_add v (vector m))" by auto
  with Cons show ?case by simp
qed

lemma position_is_goal_contains:
  assumes "contains a v"
  shows "position_is_goal (shape a) goal v = Inr (v = goal)"
proof -
  from assms have b: "0 \<le> fst v" "fst v < fst (shape a)" "0 \<le> snd v" "snd v < snd (shape a)"
    by (simp_all add: contains_shape)
  then show ?thesis
    by (simp add: position_is_goal_def setitem_def py_get_def py_set_def)
qed

lemma finite_contains: "finite {v. contains a v}"
proof -
  have "{v. contains a v} \<subseteq> {0..<fst (shape a)} \<times> {0..<snd (shape a)}"
    by (auto simp: contains_shape)
  then show ?thesis by (rule finite_subset) simp
qed

lemma bfs_frontier_reaches:
  assumes inv: "bfs_inv w s0 S frontier explored"
  shows "stop \<notin> set q \<Longrightarrow> wall_free w s0 q \<Longrightarrow> replay s0 q \<notin> explored \<Longrightarrow>
           \<exists>n \<in> set frontier. length (fst (snd n)) \<le> length q"
proof (induction q rule: rev_induct)
  case Nil
  then have "s0 \<notin> explored" by simp
  with inv obtain n where "n \<in> set frontier" "fst (snd n) = []" unfolding bfs_inv_def by blast
  then show ?case by (intro bexI[of _ n]) simp_all
next
  case (snoc m q)
  let ?u = "replay s0 q"
  from snoc.prems have q: "stop \<notin> set q" "wall_free w s0 q" and m: "m \<noteq> stop"
    and f: "\<not> blocked w (vec_add ?u (vector m))" and ne: "vec_add ?u (vector m) \<notin> explored"
    by auto
  show ?case
  proof (cases "?u \<in> explored")
    case True
    from m have "m \<in> set no_stop" by (cases m) (simp_all add: no_stop_def Move_def)
    with inv True f ne q obtain n where "n \<in> set frontier" "length (fst (snd n)) \<le> length q + 1"
      unfolding bfs_inv_def by blast
    then show ?thesis by (intro bexI[of _ n]) simp_all
  next
    case False
    from snoc.IH[OF q False] obtain n where "n \<in> set frontier" "length (fst (snd n)) \<le> length q"
      by blast
    then show ?thesis by (intro bexI[of _ n]) simp_all
  qed
qed

lemma bfs_head_shortest:
  assumes inv: "bfs_inv w s0 S (n # rest) explored" and ne: "fst n \<notin> explored"
    and q: "stop \<notin> set q" "wall_free w s0 q" "replay s0 q = fst n"
  shows "length (fst (snd n)) \<le> length q"
proof -
  have "replay s0 q \<notin> explored" using q(3) ne by simp
  from bfs_frontier_reaches[OF inv q(1,2) this]
  obtain n' where n': "n' \<in> set (n # rest)" "length (fst (snd n')) \<le> length q" by blast
  from inv have "sorted (map (\<lambda>n. length (fst (snd n))) (n # rest))" by (simp add: bfs_inv_def)
  with n'(1) have "length (fst (snd n)) \<le> length (fst (snd n'))" by auto
  with n'(2) show ?thesis by simp
qed

lemma bfs_inv_skip:
  assumes inv: "bfs_inv w s0 S (n # rest) explored" and ex: "fst n \<in> explored"
  shows "bfs_inv w s0 S rest explored"
proof -
  have d: "\<exists>n' \<in> set rest. fst n' = v \<and> P n'"
    if "\<exists>n' \<in> set (n # rest). fst n' = v \<and> P n'" "v \<notin> explored" for v P
    using that ex by auto
  show ?thesis
    unfolding bfs_inv_def
  proof (intro conjI)
    show "\<forall>n\<in>set rest. replay s0 (fst (snd n)) = fst n \<and> wall_free w s0 (fst (snd n)) \<and>
            stop \<notin> set (fst (snd n)) \<and> fst n \<in> S"
      using inv by (simp add: bfs_inv_def)
    show "sorted (map (\<lambda>n. length (fst (snd n))) rest)"
      using inv by (simp add: bfs_inv_def)
    show "\<forall>n\<in>set rest. \<forall>n'\<in>set rest. length (fst (snd n')) \<le> length (fst (snd n)) + 1"
      using inv by (simp add: bfs_inv_def)
    show "\<forall>u\<in>explored. \<forall>m\<in>set no_stop. \<not> blocked w (vec_add u (vector m)) \<longrightarrow>
            vec_add u (vector m) \<notin> explored \<longrightarrow>
            (\<forall>q. stop \<notin> set q \<and> wall_free w s0 q \<and> replay s0 q = u \<longrightarrow>
                 (\<exists>n\<in>set rest. fst n = vec_add u (vector m) \<and> length (fst (snd n)) \<le> length q + 1))"
    proof (intro ballI impI allI)
      fix u m q
      assume a: "u \<in> explored" "m \<in> set no_stop" "\<not> blocked w (vec_add u (vector m))"
        "vec_add u (vector m) \<notin> explored" "stop \<notin> set q \<and> wall_free w s0 q \<and> replay s0 q = u"
      with inv have "\<exists>n'\<in>set (n # rest). fst n' = vec_add u (vector m) \<and>
                        length (fst (snd n')) \<le> length q + 1"
        unfolding bfs_inv_def by blast
      from d[OF this a(4)]
      show "\<exists>n\<in>set rest. fst n = vec_add u (vector m) \<and> length (fst (snd n)) \<le> length q + 1" .
    qed
    show "s0 \<in> explored \<or> (\<exists>n\<in>set rest. fst n = s0 \<and> fst (snd n) = [])"
    proof (cases "s0 \<in> explored")
      case True
      then show ?thesis by simp
    next
      case False
      with inv have "\<exists>n'\<in>set (n # rest). fst n' = s0 \<and> fst (snd n') = []"
        by (simp add: bfs_inv_def)
      from d[OF this False] show ?thesis by simp
    qed
    show "explored \<subseteq> S" using inv by (simp add: bfs_inv_def)
  qed
qed


lemma no_stop_iff: "m \<in> set no_stop \<longleftrightarrow> m \<noteq> stop"
  by (cases m) (simp_all add: no_stop_def Move_def)

lemma bfs_inv_expand:
  fixes cost_fn :: "vector \<Rightarrow> 'c::plus"
  assumes inv: "bfs_inv w s0 S (n # rest) explored" and ne: "fst n \<notin> explored"
    and closed: "\<forall>m \<in> set no_stop. \<not> blocked w (vec_add (fst n) (vector m))
                    \<longrightarrow> vec_add (fst n) (vector m) \<in> S"
    and succs: "succs = map (\<lambda>m. (vec_add (fst n) (vector m), [m], cost_fn (vec_add (fst n) (vector m))))
                            (filter (\<lambda>m. \<not> blocked w (vec_add (fst n) (vector m))) no_stop)"
  shows "bfs_inv w s0 S
           (rest @ new_nodes (fst (snd n)) (snd (snd n)) (insert (fst n) explored) succs)
           (insert (fst n) explored)"
proof -
  let ?s = "fst n" and ?p = "fst (snd n)" and ?c = "snd (snd n)"
  let ?E = "insert ?s explored"
  let ?new = "new_nodes ?p ?c ?E succs"
  have new_elim: "\<exists>m. m \<noteq> stop \<and> \<not> blocked w (vec_add ?s (vector m)) \<and>
                     vec_add ?s (vector m) \<notin> ?E \<and> fst x = vec_add ?s (vector m) \<and>
                     fst (snd x) = ?p @ [m]"
    if "x \<in> set ?new" for x
    using that unfolding new_nodes_def succs by (auto simp: no_stop_iff)
  have new_intro: "\<exists>x \<in> set ?new. fst x = vec_add ?s (vector m) \<and> fst (snd x) = ?p @ [m]"
    if "m \<noteq> stop" "\<not> blocked w (vec_add ?s (vector m))" "vec_add ?s (vector m) \<notin> ?E" for m
  proof -
    let ?x = "(vec_add ?s (vector m), ?p @ [m], ?c + cost_fn (vec_add ?s (vector m)))"
    have "?x \<in> set ?new"
      using that unfolding new_nodes_def succs by (auto simp: no_stop_iff image_iff)
    then show ?thesis by (intro bexI[of _ ?x]) simp_all
  qed
  from inv have A: "\<forall>x\<in>set (n # rest). replay s0 (fst (snd x)) = fst x \<and>
        wall_free w s0 (fst (snd x)) \<and> stop \<notin> set (fst (snd x)) \<and> fst x \<in> S"
    and B: "sorted (map (\<lambda>x. length (fst (snd x))) (n # rest))"
    and C: "\<forall>x\<in>set (n # rest). \<forall>y\<in>set (n # rest). length (fst (snd y)) \<le> length (fst (snd x)) + 1"
    and D: "\<forall>u\<in>explored. \<forall>m\<in>set no_stop. \<not> blocked w (vec_add u (vector m)) \<longrightarrow>
            vec_add u (vector m) \<notin> explored \<longrightarrow>
            (\<forall>q. stop \<notin> set q \<and> wall_free w s0 q \<and> replay s0 q = u \<longrightarrow>
                 (\<exists>x\<in>set (n # rest). fst x = vec_add u (vector m) \<and>
                      length (fst (snd x)) \<le> length q + 1))"
    and E: "s0 \<in> explored \<or> (\<exists>x\<in>set (n # rest). fst x = s0 \<and> fst (snd x) = [])"
    and F: "explored \<subseteq> S"
    unfolding bfs_inv_def by blast+
  from A have An: "replay s0 ?p = ?s" "wall_free w s0 ?p" "stop \<notin> set ?p" "?s \<in> S" by simp_all
  have len_new: "length (fst (snd x)) = length ?p + 1" if "x \<in> set ?new" for x
    using new_elim[OF that] by auto
  have len_rest_le: "length (fst (snd x)) \<le> length ?p + 1" if "x \<in> set rest" for x
    using C that by simp
  have len_rest_ge: "length ?p \<le> length (fst (snd x))" if "x \<in> set rest" for x
    using B that by auto
  show ?thesis
    unfolding bfs_inv_def
  proof (intro conjI)
    show "\<forall>x\<in>set (rest @ ?new). replay s0 (fst (snd x)) = fst x \<and>
            wall_free w s0 (fst (snd x)) \<and> stop \<notin> set (fst (snd x)) \<and> fst x \<in> S"
    proof
      fix x assume "x \<in> set (rest @ ?new)"
      then consider "x \<in> set rest" | "x \<in> set ?new" by auto
      then show "replay s0 (fst (snd x)) = fst x \<and>
            wall_free w s0 (fst (snd x)) \<and> stop \<notin> set (fst (snd x)) \<and> fst x \<in> S"
      proof cases
        case 1
        with A show ?thesis by simp
      next
        case 2
        from new_elim[OF 2] obtain m where m: "m \<noteq> stop" "\<not> blocked w (vec_add ?s (vector m))"
          "fst x = vec_add ?s (vector m)" "fst (snd x) = ?p @ [m]" by blast
        from m(1,2) closed have "vec_add ?s (vector m) \<in> S" by (simp add: no_stop_iff)
        with m An show ?thesis by simp
      qed
    qed
    have "sorted (map (\<lambda>x. length (fst (snd x))) ?new)"
      using len_new by (intro sorted_wrt_iff_nth_less[THEN iffD2]) (auto simp: sorted_wrt_iff_nth_less)
    moreover have "sorted (map (\<lambda>x. length (fst (snd x))) rest)" using B by simp
    ultimately show "sorted (map (\<lambda>x. length (fst (snd x))) (rest @ ?new))"
      using len_new len_rest_le by (auto simp: sorted_append)
    show "\<forall>x\<in>set (rest @ ?new). \<forall>y\<in>set (rest @ ?new).
            length (fst (snd y)) \<le> length (fst (snd x)) + 1"
    proof (intro ballI)
      fix x y assume "x \<in> set (rest @ ?new)" "y \<in> set (rest @ ?new)"
      then consider "x \<in> set rest" "y \<in> set rest" | "x \<in> set rest" "y \<in> set ?new"
        | "x \<in> set ?new" "y \<in> set rest" | "x \<in> set ?new" "y \<in> set ?new" by auto
      then show "length (fst (snd y)) \<le> length (fst (snd x)) + 1"
      proof cases
        case 1
        with C show ?thesis by simp
      next
        case 2
        with len_new[of y] len_rest_ge[of x] show ?thesis by simp
      next
        case 3
        with len_new[of x] len_rest_le[of y] show ?thesis by simp
      next
        case 4
        with len_new[of x] len_new[of y] show ?thesis by simp
      qed
    qed
    show "\<forall>u\<in>?E. \<forall>m\<in>set no_stop. \<not> blocked w (vec_add u (vector m)) \<longrightarrow>
            vec_add u (vector m) \<notin> ?E \<longrightarrow>
            (\<forall>q. stop \<notin> set q \<and> wall_free w s0 q \<and> replay s0 q = u \<longrightarrow>
                 (\<exists>x\<in>set (rest @ ?new). fst x = vec_add u (vector m) \<and>
                      length (fst (snd x)) \<le> length q + 1))"
    proof (intro ballI impI allI)
      fix u m q
      assume a: "u \<in> ?E" "m \<in> set no_stop" "\<not> blocked w (vec_add u (vector m))"
        "vec_add u (vector m) \<notin> ?E" "stop \<notin> set q \<and> wall_free w s0 q \<and> replay s0 q = u"
      show "\<exists>x\<in>set (rest @ ?new). fst x = vec_add u (vector m) \<and>
                      length (fst (snd x)) \<le> length q + 1"
      proof (cases "u = ?s")
        case True
        from a(2) have "m \<noteq> stop" by (simp add: no_stop_iff)
        from new_intro[OF this a(3,4)[unfolded True]] obtain x where
          x: "x \<in> set ?new" "fst x = vec_add ?s (vector m)" "fst (snd x) = ?p @ [m]" by blast
        from a(5) True have "length ?p \<le> length q"
          by (intro bfs_head_shortest[OF inv ne]) simp_all
        with x True show ?thesis by (intro bexI[of _ x]) simp_all
      next
        case False
        with a(1) have ue: "u \<in> explored" by simp
        from a(4) have vne: "vec_add u (vector m) \<notin> explored" "vec_add u (vector m) \<noteq> ?s" by auto
        from D ue a(2,3,5) vne(1) obtain x where
          x: "x \<in> set (n # rest)" "fst x = vec_add u (vector m)" "length (fst (snd x)) \<le> length q + 1"
          by blast
        with vne(2) have "x \<in> set rest" by auto
        with x show ?thesis by (intro bexI[of _ x]) simp_all
      qed
    qed
    show "s0 \<in> ?E \<or> (\<exists>x\<in>set (rest @ ?new). fst x = s0 \<and> fst (snd x) = [])"
    proof (cases "s0 \<in> ?E")
      case True
      then show ?thesis by simp
    next
      case False
      with E obtain x where x: "x \<in> set (n # rest)" "fst x = s0" "fst (snd x) = []" by auto
      with False have "x \<in> set rest" by auto
      with x show ?thesis by (intro disjI2 bexI[of _ x]) simp_all
    qed
    show "?E \<subseteq> S" using F An(4) by simp
  qed
qed


lemma breadthfirst_loop_shortest:
  fixes cost_fn :: "vector \<Rightarrow> 'c::plus"
  assumes r: "rectangular (statics g)" and er: "enclosed_region g s0 S"
    and q0: "stop \<notin> set q0" "wall_free (walls g) s0 q0" "replay s0 q0 = goal"
  shows "bfs_inv (walls g) s0 S frontier explored \<Longrightarrow> goal \<notin> explored \<Longrightarrow>
     \<exists>path. breadthfirst_loop (position_search g s0 goal cost_fn) frontier explored
               = Some (Inr (Some path)) \<and>
            replay s0 path = goal \<and> wall_free (walls g) s0 path \<and>
            (\<forall>q. stop \<notin> set q \<and> wall_free (walls g) s0 q \<and> replay s0 q = goal
                 \<longrightarrow> length path \<le> length q)"
proof (induction "card (S - explored)" arbitrary: frontier explored rule: less_induct)
  case less
  let ?rep = "position_search g s0 goal cost_fn"
  from er have "S \<subseteq> {v. contains (statics g) v}" by (auto simp: enclosed_region_def)
  then have fin: "finite S" using finite_contains by (rule finite_subset)
  from less.prems show ?case
  proof (induction frontier)
    case Nil
    from bfs_frontier_reaches[OF Nil(1) q0(1,2)] q0(3) Nil(2) show ?case by simp
  next
    case (Cons n rest)
    note inv = Cons.prems(1) and gne = Cons.prems(2)
    show ?case
    proof (cases "fst n \<in> explored")
      case True
      from Cons.IH[OF bfs_inv_skip[OF inv True] gne] True show ?thesis
        by (subst breadthfirst_loop.simps) simp
    next
      case False
      from inv have n: "replay s0 (fst (snd n)) = fst n" "wall_free (walls g) s0 (fst (snd n))"
        "stop \<notin> set (fst (snd n))" "fst n \<in> S"
        by (simp_all add: bfs_inv_def)
      from er n(4) have c: "contains (statics g) (fst n)"
        and cl: "\<forall>m \<in> set no_stop. \<not> blocked (walls g) (vec_add (fst n) (vector m))
                    \<longrightarrow> vec_add (fst n) (vector m) \<in> S"
        by (simp_all add: enclosed_region_def)
      have ig: "is_goal ?rep (fst n) = Inr (fst n = goal)"
        using position_is_goal_contains[OF c] by (simp add: position_search_def)
      define succs where "succs = map (\<lambda>m. (vec_add (fst n) (vector m), [m],
                                    cost_fn (vec_add (fst n) (vector m))))
                            (filter (\<lambda>m. \<not> blocked (walls g) (vec_add (fst n) (vector m))) no_stop)"
      have sc: "successors ?rep (fst n) = Inr succs"
        using r by (simp add: position_search_def position_successors_def succs_def
                      position_successors_loop_rectangular)
      show ?thesis
      proof (cases "fst n = goal")
        case True
        have "\<forall>q. stop \<notin> set q \<and> wall_free (walls g) s0 q \<and> replay s0 q = goal
                 \<longrightarrow> length (fst (snd n)) \<le> length q"
          using bfs_head_shortest[OF inv False] True by simp
        with n True False ig show ?thesis
          by (subst breadthfirst_loop.simps) simp
      next
        case ng: False
        from bfs_inv_expand[OF inv False cl succs_def]
        have inv': "bfs_inv (walls g) s0 S
           (rest @ new_nodes (fst (snd n)) (snd (snd n)) (insert (fst n) explored) succs)
           (insert (fst n) explored)" .
        from gne ng have gne': "goal \<notin> insert (fst n) explored" by auto
        from less.hyps[OF card_explore[OF fin n(4) False] inv' gne']
        show ?thesis using False ig sc ng
          by (subst breadthfirst_loop.simps) simp
      qed
    qed
  qed
qed

text \<open>
  Claim C3, as the code has it. On a rectangular grid, when the cells that can be reached
  from the start all lie inside the grid (as in a maze enclosed by walls) and some
  wall-free sequence of moves leads from the start to the goal, \<^verbatim>\<open>breadthfirst\<close> on the
  position search returns a wall-free sequence of moves from the start to the goal, and
  no wall-free sequence of moves from the start to the goal is shorter.
\<close>

theorem breadthfirst_shortest_path:
  fixes cost_fn :: "vector \<Rightarrow> 'c::{plus,zero}"
  assumes "rectangular (statics g)" and "enclosed_region g start_state S"
    and "wall_free (walls g) start_state q0" and "replay start_state q0 = goal"
  shows "\<exists>path. breadthfirst (position_search g start_state goal cost_fn) = Some (Inr (Some path)) \<and>
            replay start_state path = goal \<and> wall_free (walls g) start_state path \<and>
            (\<forall>q. wall_free (walls g) start_state q \<and> replay start_state q = goal
                 \<longrightarrow> length path \<le> length q)"
proof -
  let ?q0 = "filter (\<lambda>m. m \<noteq> stop) q0"
  from drop_stops[OF assms(3)] assms(4)
  have q0: "stop \<notin> set ?q0" "wall_free (walls g) start_state ?q0" "replay start_state ?q0 = goal"
    by simp_all
  from assms(2) have "start_state \<in> S" by (simp add: enclosed_region_def)
  then have inv: "bfs_inv (walls g) start_state S [(start_state, [], 0 :: 'c)] {}"
    by (simp add: bfs_inv_def)
  from breadthfirst_loop_shortest[OF assms(1,2) q0 inv, of cost_fn]
  obtain path where p: "breadthfirst (position_search g start_state goal cost_fn) = Some (Inr (Some path))"
    "replay start_state path = goal" "wall_free (walls g) start_state path"
    "\<forall>q. stop \<notin> set q \<and> wall_free (walls g) start_state q \<and> replay start_state q = goal
         \<longrightarrow> length path \<le> length q"
    by (auto simp: breadthfirst_def position_search_def)
  have "length path \<le> length q" if "wall_free (walls g) start_state q \<and> replay start_state q = goal" for q
  proof -
    let ?q = "filter (\<lambda>m. m \<noteq> stop) q"
    from that drop_stops[of "walls g" start_state q]
    have "stop \<notin> set ?q \<and> wall_free (walls g) start_state ?q \<and> replay start_state ?q = goal" by simp
    with p(4) have "length path \<le> length ?q" by blast
    also have "\<dots> \<le> length q" by simp
    finally show ?thesis .
  qed
  with p(1,2,3) show ?thesis by blast
qed


text \<open>
  A walled maze whose free cells form a U, from (1,1) at one tip to (3,2) at the other:
  the search returns right, right, up, and no wall-free path is shorter than 3.
\<close>

theorem breadthfirst_shortest_path_witness:
  "enclosed_region
     \<lparr>statics = [[Wall, Wall, Wall, Wall], [Wall, Empty, Empty, Wall], [Wall, Empty, Wall, Wall],
                 [Wall, Empty, Empty, Wall], [Wall, Wall, Wall, Wall]],
      agents = [Some (1, 1)], starts = [Some (1, 1)], facings = [stop], timers = [0],
      score = 0, tick = 0\<rparr> (1, 1) {(1, 1), (1, 2), (2, 1), (3, 1), (3, 2)} \<and>
   breadthfirst (position_search
     \<lparr>statics = [[Wall, Wall, Wall, Wall], [Wall, Empty, Empty, Wall], [Wall, Empty, Wall, Wall],
                 [Wall, Empty, Empty, Wall], [Wall, Wall, Wall, Wall]],
      agents = [Some (1, 1)], starts = [Some (1, 1)], facings = [stop], timers = [0],
      score = 0, tick = 0\<rparr> (1, 1) (3, 2) (\<lambda>v. 1 :: int)) = Some (Inr (Some [right, right, up])) \<and>
   \<not> (\<exists>q. wall_free (walls
     \<lparr>statics = [[Wall, Wall, Wall, Wall], [Wall, Empty, Empty, Wall], [Wall, Empty, Wall, Wall],
                 [Wall, Empty, Empty, Wall], [Wall, Wall, Wall, Wall]],
      agents = [Some (1, 1)], starts = [Some (1, 1)], facings = [stop], timers = [0],
      score = 0, tick = 0\<rparr>) (1, 1) q \<and> replay (1, 1) q = (3, 2) \<and> length q < 3)"
proof -
  let ?g = "\<lparr>statics = [[Wall, Wall, Wall, Wall], [Wall, Empty, Empty, Wall], [Wall, Empty, Wall, Wall],
                 [Wall, Empty, Empty, Wall], [Wall, Wall, Wall, Wall]],
      agents = [Some (1, 1)], starts = [Some (1, 1)], facings = [stop], timers = [0],
      score = 0, tick = 0\<rparr>"
  have r: "rectangular (statics ?g)" by (simp add: rectangular_def)
  have e: "enclosed_region ?g (1, 1) {(1, 1), (1, 2), (2, 1), (3, 1), (3, 2)}"
    by (simp add: enclosed_region_def no_stop_def Move_def walls_def indicate_def map_2d_def
          blocked_def contains_def vec_add_def)
  have w: "wall_free (walls ?g) (1, 1) [right, right, up]" by code_simp
  have p: "replay (1, 1) [right, right, up] = (3, 2)" by code_simp
  have b: "breadthfirst (position_search ?g (1, 1) (3, 2) (\<lambda>v. 1 :: int))
             = Some (Inr (Some [right, right, up]))" by code_simp
  from breadthfirst_shortest_path[OF r e w p, of "\<lambda>v. 1 :: int"]
  obtain path where path:
    "breadthfirst (position_search ?g (1, 1) (3, 2) (\<lambda>v. 1 :: int)) = Some (Inr (Some path))"
    "\<forall>q. wall_free (walls ?g) (1, 1) q \<and> replay (1, 1) q = (3, 2) \<longrightarrow> length path \<le> length q"
    by blast
  from path(1) b have "path = [right, right, up]" by simp
  then have "length path = 3" by simp
  with path(2)
  have "\<not> (\<exists>q. wall_free (walls ?g) (1, 1) q \<and> replay (1, 1) q = (3, 2) \<and> length q < 3)"
    by (metis not_less)
  with e b show ?thesis by blast
qed

text \<open>
  A maze of three free cells in a row and no wall around them. The start (0,0) and the goal
  (2,0) are free cells and two moves to the right lead from one to the other. A lookup
  outside the grid does not read as a wall, so the search puts the cell above the start
  into its queue; the goal test on that cell writes outside the expansion grid and the
  search ends with IndexError instead of a path.
\<close>

theorem breadthfirst_shortest_path_counterexample:
  "getitem (walls \<lparr>statics = [[Empty], [Empty], [Empty]], agents = [Some (0, 0)],
                  starts = [Some (0, 0)], facings = [stop], timers = [0], score = 0, tick = 0\<rparr>)
      (0, 0) = Inr (Some False) \<and>
   getitem (walls \<lparr>statics = [[Empty], [Empty], [Empty]], agents = [Some (0, 0)],
                  starts = [Some (0, 0)], facings = [stop], timers = [0], score = 0, tick = 0\<rparr>)
      (2, 0) = Inr (Some False) \<and>
   wall_free (walls \<lparr>statics = [[Empty], [Empty], [Empty]], agents = [Some (0, 0)],
                  starts = [Some (0, 0)], facings = [stop], timers = [0], score = 0, tick = 0\<rparr>)
      (0, 0) [right, right] \<and>
   replay (0, 0) [right, right] = (2, 0) \<and>
   breadthfirst (position_search
       \<lparr>statics = [[Empty], [Empty], [Empty]], agents = [Some (0, 0)],
        starts = [Some (0, 0)], facings = [stop], timers = [0], score = 0, tick = 0\<rparr>
       (0, 0) (2, 0) (\<lambda>v. 1 :: int)) = Some (Inl IndexError)"
  by code_simp

section \<open>Receivers and copies\<close>

lemma lookup_append: "r < length h \<Longrightarrow> lookup (h @ xs) r = lookup h r"
  by (simp add: lookup_def nth_append)

lemma lookup_Some_less: "lookup h r = Some x \<Longrightarrow> r < length h"
  by (simp add: lookup_def split: if_splits)

lemma lookup_append_Some: "lookup h r = Some x \<Longrightarrow> lookup (h @ xs) r = Some x"
  by (simp add: lookup_def nth_append split: if_splits)

lemma cells_at_append: "cells_at h r = Some cs \<Longrightarrow> cells_at (h @ xs) r = Some cs"
  unfolding cells_at_def by (auto simp: lookup_append_Some split: option.splits object.splits)

lemma map_Some_the:
  "map f cols = map Some a \<longleftrightarrow> None \<notin> f ` set cols \<and> a = map (\<lambda>c. the (f c)) cols"
proof (induction cols arbitrary: a)
  case Nil
  then show ?case by auto
next
  case (Cons c cols)
  then show ?case by (cases a; cases "f c") auto
qed

lemma load_grid_Some:
  "load_grid h r = Some a \<longleftrightarrow> (\<exists>cols. lookup h r = Some (Columns cols) \<and> map (cells_at h) cols = map Some a)"
proof (cases "lookup h r")
  case None
  then show ?thesis by (simp add: load_grid_def)
next
  case (Some ob)
  then show ?thesis
    by (cases ob) (auto simp: load_grid_def map_Some_the)
qed

lemma load_gamestate_Some:
  "load_gamestate h g = Some gs \<longleftrightarrow>
     (\<exists>sr ar str fr tr.
        lookup h g = Some (Gamestate_object sr ar str fr tr (score gs) (tick gs)) \<and>
        load_grid h sr = Some (statics gs) \<and>
        lookup h ar = Some (Positions (agents gs)) \<and>
        lookup h str = Some (Positions (starts gs)) \<and>
        lookup h fr = Some (Facings (facings gs)) \<and>
        lookup h tr = Some (Timers (timers gs)))"
  unfolding load_gamestate_def
  by (cases gs) (auto split: option.splits object.splits)

lemma load_grid_append: "load_grid h r = Some a \<Longrightarrow> load_grid (h @ xs) r = Some a"
proof -
  assume "load_grid h r = Some a"
  then obtain cols where c: "lookup h r = Some (Columns cols)" "map (cells_at h) cols = map Some a"
    unfolding load_grid_Some by blast
  have "map (cells_at (h @ xs)) cols = map Some a"
    using c(2) by (induction cols arbitrary: a) (auto simp: cells_at_append)
  with c(1) show ?thesis unfolding load_grid_Some by (auto simp: lookup_append_Some)
qed

lemma load_gamestate_append:
  "load_gamestate h g = Some gs \<Longrightarrow> load_gamestate (h @ xs) g = Some gs"
  unfolding load_gamestate_Some
  by (meson load_grid_append lookup_append_Some)


lemma length_store_columns [simp]: "length (store_columns h cols xs) = length h"
  by (induction h cols xs rule: store_columns.induct) auto

lemma store_columns_other: "i \<notin> set cols \<Longrightarrow> store_columns h cols xs ! i = h ! i"
  by (induction h cols xs rule: store_columns.induct) auto

lemma store_columns_nth:
  "distinct cols \<Longrightarrow> length xs = length cols \<Longrightarrow> \<forall>c \<in> set cols. c < length h \<Longrightarrow> j < length cols
   \<Longrightarrow> store_columns h cols xs ! (cols ! j) = Cells (xs ! j)"
proof (induction h cols xs arbitrary: j rule: store_columns.induct)
  case (1 h c cs x xs)
  show ?case
  proof (cases j)
    case 0
    then show ?thesis using 1(2,4) by (simp add: store_columns_other)
  next
    case (Suc i)
    then show ?thesis using 1 by simp
  qed
qed simp_all

lemma take_store_columns:
  "\<forall>c \<in> set cols. n \<le> c \<Longrightarrow> take n (store_columns h cols xs) = take n h"
  by (induction h cols xs rule: store_columns.induct) auto

lemma take_store_gamestate:
  "\<forall>r \<in> set (refs h g). n \<le> r \<Longrightarrow> take n (store_gamestate h g gs) = take n h"
  unfolding store_gamestate_def refs_def
  by (auto split: option.splits object.splits simp: take_store_columns)

lemma load_store_gamestate:
  assumes own: "own_lists h g" and ld: "load_gamestate h g = Some gs"
    and len: "length (statics gs') = length (statics gs)" and st: "starts gs' = starts gs"
  shows "load_gamestate (store_gamestate h g gs') g = Some gs'"
proof -
  from ld obtain sr ar str fr tr where
    g: "lookup h g = Some (Gamestate_object sr ar str fr tr (score gs) (tick gs))" and
    gr: "load_grid h sr = Some (statics gs)" and
    a: "lookup h ar = Some (Positions (agents gs))" and
    s: "lookup h str = Some (Positions (starts gs))" and
    f: "lookup h fr = Some (Facings (facings gs))" and
    t: "lookup h tr = Some (Timers (timers gs))"
    unfolding load_gamestate_Some by blast
  from gr obtain cols where c: "lookup h sr = Some (Columns cols)"
      "map (cells_at h) cols = map Some (statics gs)"
    unfolding load_grid_Some by blast
  have d: "distinct (g # sr # ar # str # fr # tr # cols)"
    using own g c(1) by (simp add: own_lists_def)
  have lc: "length cols = length (statics gs)" using c(2) by (metis length_map)
  have cl: "\<forall>c \<in> set cols. c < length h"
  proof
    fix x assume "x \<in> set cols"
    then have "cells_at h x \<noteq> None" using c(2) by (metis map_Some_the image_eqI)
    then show "x < length h" by (auto simp: cells_at_def lookup_def split: if_splits)
  qed
  define h0 where "h0 = store_columns h cols (statics gs')"
  define h1 where "h1 = h0[ar := Positions (agents gs'), fr := Facings (facings gs'),
     tr := Timers (timers gs'), g := Gamestate_object sr ar str fr tr (score gs') (tick gs')]"
  have eq: "store_gamestate h g gs' = h1"
    by (simp add: store_gamestate_def g c(1) h1_def h0_def)
  have bounds: "g < length h" "sr < length h" "ar < length h" "str < length h" "fr < length h" "tr < length h"
    using g c(1) a s f t by (auto dest: lookup_Some_less)
  have l0: "length h0 = length h" by (simp add: h0_def)
  have o0: "i \<notin> set cols \<Longrightarrow> h0 ! i = h ! i" for i by (simp add: h0_def store_columns_other)
  have n0: "j < length cols \<Longrightarrow> h0 ! (cols ! j) = Cells (statics gs' ! j)" for j
    unfolding h0_def using d lc len cl by (intro store_columns_nth) auto
  have 1: "lookup h1 g = Some (Gamestate_object sr ar str fr tr (score gs') (tick gs'))"
    using bounds by (simp add: lookup_def h1_def l0)
  have neq: "ar \<noteq> sr" "fr \<noteq> sr" "tr \<noteq> sr" "g \<noteq> sr" "ar \<noteq> str" "fr \<noteq> str" "tr \<noteq> str" "g \<noteq> str"
      "fr \<noteq> ar" "tr \<noteq> ar" "g \<noteq> ar" "tr \<noteq> fr" "g \<noteq> fr" "g \<noteq> tr"
    using d by auto
  have 2: "lookup h1 sr = Some (Columns cols)"
    using bounds d neq c(1) o0[of sr] by (simp add: lookup_def h1_def l0)
  have 3: "lookup h1 ar = Some (Positions (agents gs'))"
    using bounds d neq by (simp add: lookup_def h1_def l0)
  have 4: "lookup h1 str = Some (Positions (starts gs'))"
    using bounds d neq s o0[of str] st by (simp add: lookup_def h1_def l0)
  have 5: "lookup h1 fr = Some (Facings (facings gs'))"
    using bounds d neq by (simp add: lookup_def h1_def l0)
  have 6: "lookup h1 tr = Some (Timers (timers gs'))"
    using bounds d neq by (simp add: lookup_def h1_def l0)
  have 7: "map (cells_at h1) cols = map Some (statics gs')"
  proof (rule nth_equalityI)
    show "length (map (cells_at h1) cols) = length (map Some (statics gs'))"
      using lc len by simp
  next
    fix j assume "j < length (map (cells_at h1) cols)"
    then have j: "j < length cols" by simp
    then have m: "cols ! j \<in> set cols" by simp
    then have ne: "cols ! j \<noteq> ar" "cols ! j \<noteq> fr" "cols ! j \<noteq> tr" "cols ! j \<noteq> g"
      using d by auto
    have "h1 ! (cols ! j) = Cells (statics gs' ! j)"
      using ne n0[OF j] by (simp add: h1_def)
    moreover have "cols ! j < length h1" using cl m by (simp add: h1_def l0)
    ultimately show "map (cells_at h1) cols ! j = map Some (statics gs') ! j"
      using j lc len by (simp add: cells_at_def lookup_def)
  qed
  show ?thesis
    unfolding eq load_gamestate_Some load_grid_Some using 1 2 3 4 5 6 7 by blast
qed

lemma copy_h_props:
  assumes ld: "load_gamestate h g = Some gs"
  shows "\<exists>xs c. copy_h h g = Some (c, h @ xs) \<and> load_gamestate (h @ xs) c = Some gs \<and>
           own_lists (h @ xs) c \<and> (\<forall>r \<in> set (refs (h @ xs) c). length h \<le> r)"
proof -
  define n where "n = length h"
  define k where "k = length (statics gs)"
  define tl6 :: "'a object list" where "tl6 = [Columns [n ..< n + k], Positions (agents gs), Positions (starts gs),
        Facings (facings gs), Timers (timers gs),
        Gamestate_object (n + k) (n + k + 1) (n + k + 2) (n + k + 3) (n + k + 4) (score gs) (tick gs)]"
  define xs where "xs = map Cells (statics gs) @ tl6"
  have cp: "copy_h h g = Some (n + k + 5, h @ xs)"
    by (simp add: copy_h_def ld Let_def n_def k_def xs_def tl6_def)
  have lx: "length xs = k + 6" by (simp add: xs_def k_def tl6_def)
  have at: "i < 6 \<Longrightarrow> lookup (h @ xs) (n + k + i) = Some (tl6 ! i)" for i
    by (simp add: lookup_def nth_append n_def xs_def k_def tl6_def)
  have col: "j < k \<Longrightarrow> cells_at (h @ xs) (n + j) = Some (statics gs ! j)" for j
    by (simp add: cells_at_def lookup_def nth_append n_def xs_def k_def)
  have 0: "lookup (h @ xs) (n + k) = Some (Columns [n ..< n + k])"
    using at[of 0] by (simp add: tl6_def)
  have 1: "lookup (h @ xs) (n + k + 1) = Some (Positions (agents gs))"
    using at[of 1] by (simp add: tl6_def)
  have 2: "lookup (h @ xs) (n + k + 2) = Some (Positions (starts gs))"
    using at[of 2] by (simp add: tl6_def)
  have 3: "lookup (h @ xs) (n + k + 3) = Some (Facings (facings gs))"
    using at[of 3] by (simp add: tl6_def)
  have 4: "lookup (h @ xs) (n + k + 4) = Some (Timers (timers gs))"
    using at[of 4] by (simp add: tl6_def)
  have 5: "lookup (h @ xs) (n + k + 5) =
      Some (Gamestate_object (n + k) (n + k + 1) (n + k + 2) (n + k + 3) (n + k + 4) (score gs) (tick gs))"
    using at[of 5] by (simp add: tl6_def)
  have 6: "map (cells_at (h @ xs)) [n ..< n + k] = map Some (statics gs)"
    by (rule nth_equalityI) (simp_all add: k_def col)
  have ld': "load_gamestate (h @ xs) (n + k + 5) = Some gs"
    unfolding load_gamestate_Some load_grid_Some using 0 1 2 3 4 5 6 by blast
  have own: "own_lists (h @ xs) (n + k + 5)"
    by (simp add: own_lists_def 5 0)
  have fr: "\<forall>r \<in> set (refs (h @ xs) (n + k + 5)). n \<le> r"
    by (auto simp: refs_def 5 0)
  show ?thesis using cp ld' own fr unfolding n_def by blast
qed


lemma setitem_length: "setitem a k v = Inr a' \<Longrightarrow> length a' = length a"
  by (auto simp: setitem_def py_set_def split: sum.splits if_splits)

lemma kill_frame:
  "length (statics (snd (kill i g))) = length (statics g) \<and> starts (snd (kill i g)) = starts g"
  by (simp add: kill_def Let_def)

lemma then_do_frame:
  assumes "length (statics (snd r)) = length (statics g) \<and> starts (snd r) = starts g"
    and "\<And>g1. length (statics (snd (f g1))) = length (statics g1) \<and> starts (snd (f g1)) = starts g1"
  shows "length (statics (snd (then_do r f))) = length (statics g) \<and> starts (snd (then_do r f)) = starts g"
proof (cases r)
  case (Pair e g1)
  then show ?thesis using assms(1) assms(2)[of g1] by (cases e) auto
qed

lemma resolve_encounter_frame:
  "length (statics (snd (resolve_encounter i g))) = length (statics g) \<and>
   starts (snd (resolve_encounter i g)) = starts g"
  unfolding resolve_encounter_def
  by (auto intro!: then_do_frame[THEN conjunct1] then_do_frame[THEN conjunct2] simp: kill_frame)

lemma meet_ghost_frame:
  "length (statics (snd (meet_ghost v g))) = length (statics g) \<and> starts (snd (meet_ghost v g)) = starts g"
  unfolding meet_ghost_def by (auto simp: resolve_encounter_frame split: sum.splits)

lemma eat_dot_frame:
  "length (statics (snd (eat_dot v g))) = length (statics g) \<and> starts (snd (eat_dot v g)) = starts g"
  unfolding eat_dot_def by (auto simp: Let_def setitem_length split: sum.splits)

lemma eat_pellet_frame:
  "length (statics (snd (eat_pellet v g))) = length (statics g) \<and> starts (snd (eat_pellet v g)) = starts g"
  unfolding eat_pellet_def by (auto simp: Let_def setitem_length split: sum.splits)

lemma apply_move_frame:
  "length (statics (snd (apply_move a mv g))) = length (statics g) \<and>
   starts (snd (apply_move a mv g)) = starts g"
proof -
  have *: "length (statics (snd (then_do (then_do (meet_ghost v g4) (eat_dot v)) (eat_pellet v)))) = length (statics g4)
     \<and> starts (snd (then_do (then_do (meet_ghost v g4) (eat_dot v)) (eat_pellet v))) = starts g4" for v g4
    by (intro then_do_frame meet_ghost_frame eat_dot_frame eat_pellet_frame)
  show ?thesis
    unfolding apply_move_def Let_def
    by (simp add: * resolve_encounter_frame split: option.split sum.split)
qed

lemma take_extends:
  assumes "take (length h) h' = h"
  shows "\<exists>ys. h' = h @ ys"
  using assms by (metis append_take_drop_id)

lemma successor_h_frame:
  assumes ld: "load_gamestate h g = Some gs"
  shows "\<exists>r h'. successor_h h g a mv = Some (r, h') \<and> take (length h) h' = h \<and>
           (case successor gs a mv of
              Inl e \<Rightarrow> r = Inl e
            | Inr s \<Rightarrow> \<exists>c. r = Inr c \<and> load_gamestate h' c = Some s)"
proof -
  from copy_h_props[OF ld] obtain xs c where
    cp: "copy_h h g = Some (c, h @ xs)" and lc: "load_gamestate (h @ xs) c = Some gs"
    and own: "own_lists (h @ xs) c" and fr: "\<forall>r \<in> set (refs (h @ xs) c). length h \<le> r"
    by blast
  obtain e gs' where am: "apply_move a mv gs = (e, gs')" by (cases "apply_move a mv gs")
  define h' where "h' = store_gamestate (h @ xs) c gs'"
  have ah: "apply_move_h (h @ xs) c a mv = Some (e, h')"
    by (simp add: apply_move_h_def lc own am h'_def)
  have tk: "take (length h) h' = h"
    unfolding h'_def using take_store_gamestate[OF fr] by simp
  have l': "load_gamestate h' c = Some gs'"
    unfolding h'_def using apply_move_frame[of a mv gs] am
    by (intro load_store_gamestate[OF own lc]) auto
  show ?thesis
  proof (cases e)
    case None
    then show ?thesis using cp ah tk l' am by (simp add: successor_h_def successor_def)
  next
    case (Some err)
    then show ?thesis using cp ah tk am by (simp add: successor_h_def successor_def)
  qed
qed

lemma successors_loop_frame:
  assumes "load_gamestate h g = Some gs"
  shows "\<exists>r h'. successors_loop h g a ms = Some (r, h') \<and> take (length h) h' = h \<and>
           (\<forall>cs. r = Inr cs \<longrightarrow>
              map (\<lambda>c. map_option Inr (load_gamestate h' c)) cs = map (\<lambda>m. Some (successor gs a (Some m))) ms)"
  using assms
proof (induction ms arbitrary: h)
  case Nil
  then show ?case by simp
next
  case (Cons m ms)
  from successor_h_frame[OF Cons.prems, of a "Some m"] obtain r1 h1 where
    s1: "successor_h h g a (Some m) = Some (r1, h1)" and t1: "take (length h) h1 = h"
    and c1: "case successor gs a (Some m) of Inl e \<Rightarrow> r1 = Inl e
             | Inr s \<Rightarrow> \<exists>c. r1 = Inr c \<and> load_gamestate h1 c = Some s"
    by blast
  show ?case
  proof (cases "successor gs a (Some m)")
    case (Inl e)
    then show ?thesis using s1 t1 c1 by simp
  next
    case (Inr s)
    with c1 obtain c where r1: "r1 = Inr c" and lc: "load_gamestate h1 c = Some s" by auto
    from take_extends[OF t1] obtain xs where h1: "h1 = h @ xs" by blast
    have lg: "load_gamestate h1 g = Some gs"
      unfolding h1 by (rule load_gamestate_append[OF Cons.prems])
    from Cons.IH[OF lg] obtain r2 h2 where
      s2: "successors_loop h1 g a ms = Some (r2, h2)" and t2: "take (length h1) h2 = h1"
      and c2: "\<forall>cs. r2 = Inr cs \<longrightarrow>
              map (\<lambda>c. map_option Inr (load_gamestate h2 c)) cs = map (\<lambda>m. Some (successor gs a (Some m))) ms"
      by blast
    from take_extends[OF t2] obtain ys where h2: "h2 = h1 @ ys" by blast
    have tk: "take (length h) h2 = h" unfolding h2 h1 by simp
    have lc2: "load_gamestate h2 c = Some s"
      unfolding h2 by (rule load_gamestate_append[OF lc])
    show ?thesis
    proof (cases r2)
      case (Inl e)
      then show ?thesis using s1 r1 s2 tk by simp
    next
      case (Inr cs)
      then show ?thesis using s1 r1 s2 tk c2 lc2 \<open>successor gs a (Some m) = Inr s\<close> by simp
    qed
  qed
qed


lemma position_successors_h_total:
  "lookup h rep = Some (Representation_object wr start_state goal cost_fn) \<Longrightarrow> load_flags h wr = Some wls
   \<Longrightarrow> position_successors_h h rep state = Some (position_successors wls cost_fn state, h)"
  by (simp add: position_successors_h_def)

lemma position_pathcost_h_total:
  "lookup h rep = Some (Representation_object wr start_state goal cost_fn) \<Longrightarrow> load_flags h wr = Some wls
   \<Longrightarrow> position_pathcost_h h rep path = Some (standard_pathcost path start_state wls cost_fn, h)"
  by (simp add: position_pathcost_h_def)

text \<open>
  Claim C6. For a gamestate object \<open>g\<close> of the heap, \<^verbatim>\<open>successor\<close> and \<^verbatim>\<open>successors\<close> return,
  and every object that existed before the call is the same after it, so \<open>g\<close> reads as the
  same gamestate: the moves are applied to objects allocated by the call. The reference
  \<^verbatim>\<open>successor\<close> returns reads as the result of the move, and so do the references
  \<^verbatim>\<open>successors\<close> returns, one for each legal move. The methods \<^verbatim>\<open>successors\<close> and
  \<^verbatim>\<open>pathcost\<close> of a position representation return the heap they were given, for every
  state and every list of moves, so neither a gamestate nor the walls grid of the
  representation has changed. (The other representations of the program read their walls
  grid in the same way and assign to no attribute in these two methods.)
\<close>

theorem successors_and_pathcost_leave_world_unchanged:
  fixes h :: "'c::{plus,zero} heap"
  assumes "load_gamestate h g = Some gs"
  shows "(\<exists>r h'. successor_h h g agent_id mv = Some (r, h') \<and> take (length h) h' = h \<and>
            load_gamestate h' g = Some gs \<and>
            (case successor gs agent_id mv of
               Inl e \<Rightarrow> r = Inl e
             | Inr s \<Rightarrow> \<exists>c. r = Inr c \<and> load_gamestate h' c = Some s)) \<and>
         (\<exists>r h'. successors_h order h g agent_id = Some (r, h') \<and> take (length h) h' = h \<and>
            load_gamestate h' g = Some gs \<and>
            (\<forall>cs. r = Inr cs \<longrightarrow>
               (\<exists>ms. legal_moves_id gs agent_id = Inr ms \<and>
                  map (\<lambda>c. map_option Inr (load_gamestate h' c)) cs =
                  map (\<lambda>m. Some (successor gs agent_id (Some m))) (order ms)))) \<and>
         (\<forall>out h'. position_successors_h h rep state = Some (out, h') \<longrightarrow> h' = h) \<and>
         (\<forall>out h'. position_pathcost_h h rep path = Some (out, h') \<longrightarrow> h' = h)"
proof -
  have keep: "load_gamestate h' g = Some gs" if "take (length h) h' = h" for h'
  proof -
    from take_extends[OF that] obtain ys where "h' = h @ ys" by blast
    then show ?thesis using load_gamestate_append[OF assms] by simp
  qed
  have 1: "\<exists>r h'. successor_h h g agent_id mv = Some (r, h') \<and> take (length h) h' = h \<and>
            load_gamestate h' g = Some gs \<and>
            (case successor gs agent_id mv of
               Inl e \<Rightarrow> r = Inl e
             | Inr s \<Rightarrow> \<exists>c. r = Inr c \<and> load_gamestate h' c = Some s)"
    using successor_h_frame[OF assms, of agent_id mv] keep by blast
  have 2: "\<exists>r h'. successors_h order h g agent_id = Some (r, h') \<and> take (length h) h' = h \<and>
            load_gamestate h' g = Some gs \<and>
            (\<forall>cs. r = Inr cs \<longrightarrow>
               (\<exists>ms. legal_moves_id gs agent_id = Inr ms \<and>
                  map (\<lambda>c. map_option Inr (load_gamestate h' c)) cs =
                  map (\<lambda>m. Some (successor gs agent_id (Some m))) (order ms)))"
  proof (cases "legal_moves_id gs agent_id")
    case (Inl e)
    then show ?thesis using assms by (simp add: successors_h_def)
  next
    case (Inr ms)
    from successors_loop_frame[OF assms, of agent_id "order ms"] obtain r h' where
      "successors_loop h g agent_id (order ms) = Some (r, h')" "take (length h) h' = h"
      "\<forall>cs. r = Inr cs \<longrightarrow>
              map (\<lambda>c. map_option Inr (load_gamestate h' c)) cs =
              map (\<lambda>m. Some (successor gs agent_id (Some m))) (order ms)"
      by blast
    then show ?thesis using assms Inr keep by (simp add: successors_h_def)
  qed
  have 3: "\<forall>out h'. position_successors_h h rep state = Some (out, h') \<longrightarrow> h' = h"
    by (auto simp: position_successors_h_def split: option.splits object.splits)
  have 4: "\<forall>out h'. position_pathcost_h h rep path = Some (out, h') \<longrightarrow> h' = h"
    by (auto simp: position_pathcost_h_def split: option.splits object.splits)
  from 1 2 3 4 show ?thesis by blast
qed

text \<open>
  A corridor of two cells with a dot, and a position representation with its walls grid:
  after \<^verbatim>\<open>successor\<close> with the move right the gamestate object still reads as before, and
  the new object reads as the state in which Pacman has eaten the dot.
\<close>

theorem successors_and_pathcost_leave_world_unchanged_witness:
  "(let h = [Cells [Wall, Wall, Wall], Cells [Wall, Empty, Wall], Cells [Wall, Dot, Wall],
             Cells [Wall, Wall, Wall], Columns [0, 1, 2, 3],
             Positions [Some (1, 1)], Positions [Some (1, 1)], Facings [stop], Timers [0],
             Gamestate_object 4 5 6 7 8 0 0,
             Flags [True, True, True], Flags [True, False, True], Flags [True, False, True],
             Flags [True, True, True], Columns [10, 11, 12, 13],
             Representation_object 14 (1, 1) (2, 1) (\<lambda>v. 1 :: int)];
        gs = \<lparr>statics = [[Wall, Wall, Wall], [Wall, Empty, Wall], [Wall, Dot, Wall], [Wall, Wall, Wall]],
               agents = [Some (1, 1)], starts = [Some (1, 1)], facings = [stop], timers = [0],
               score = 0, tick = 0\<rparr>;
        gs' = \<lparr>statics = [[Wall, Wall, Wall], [Wall, Empty, Wall], [Wall, Empty, Wall], [Wall, Wall, Wall]],
                agents = [Some (2, 1)], starts = [Some (1, 1)], facings = [right], timers = [0],
                score = 509, tick = 0\<rparr>
    in load_gamestate h 9 = Some gs \<and>
       (\<exists>c h'. successor_h h 9 0 (Some right) = Some (Inr c, h') \<and> take (length h) h' = h \<and>
                load_gamestate h' 9 = Some gs \<and> load_gamestate h' c = Some gs') \<and>
       (\<exists>r h'. successors_h (\<lambda>xs. xs) h 9 0 = Some (r, h') \<and> take (length h) h' = h \<and>
                load_gamestate h' 9 = Some gs) \<and>
       (\<exists>out. position_successors_h h 15 (1, 1) = Some (out, h)) \<and>
       (\<exists>out. position_pathcost_h h 15 [right] = Some (out, h)))"
proof -
  let ?h = "[Cells [Wall, Wall, Wall], Cells [Wall, Empty, Wall], Cells [Wall, Dot, Wall],
             Cells [Wall, Wall, Wall], Columns [0, 1, 2, 3],
             Positions [Some (1, 1)], Positions [Some (1, 1)], Facings [stop], Timers [0],
             Gamestate_object 4 5 6 7 8 0 0,
             Flags [True, True, True], Flags [True, False, True], Flags [True, False, True],
             Flags [True, True, True], Columns [10, 11, 12, 13],
             Representation_object 14 (1, 1) (2, 1) (\<lambda>v. 1 :: int)]"
  let ?gs = "\<lparr>statics = [[Wall, Wall, Wall], [Wall, Empty, Wall], [Wall, Dot, Wall], [Wall, Wall, Wall]],
               agents = [Some (1, 1)], starts = [Some (1, 1)], facings = [stop], timers = [0],
               score = 0, tick = 0\<rparr>"
  let ?gs' = "\<lparr>statics = [[Wall, Wall, Wall], [Wall, Empty, Wall], [Wall, Empty, Wall], [Wall, Wall, Wall]],
                agents = [Some (2, 1)], starts = [Some (1, 1)], facings = [right], timers = [0],
                score = 509, tick = 0\<rparr>"
  have ld: "load_gamestate ?h 9 = Some ?gs" by code_simp
  have sc: "successor ?gs 0 (Some right) = Inr ?gs'" by code_simp
  have lf: "load_flags ?h 14 = Some [[True, True, True], [True, False, True], [True, False, True],
              [True, True, True]]" by code_simp
  have lr: "lookup ?h 15 = Some (Representation_object 14 (1, 1) (2, 1) (\<lambda>v. 1 :: int))"
    by (simp add: lookup_def)
  note t = successors_and_pathcost_leave_world_unchanged[OF ld, of 0 "Some right" "\<lambda>xs. xs" 15 "(1, 1)" "[right]"]
  from t[THEN conjunct1] obtain r h1 where
    a: "successor_h ?h 9 0 (Some right) = Some (r, h1)" "take (length ?h) h1 = ?h"
       "load_gamestate h1 9 = Some ?gs"
       "case successor ?gs 0 (Some right) of Inl e \<Rightarrow> r = Inl e
        | Inr s \<Rightarrow> \<exists>c. r = Inr c \<and> load_gamestate h1 c = Some s"
    by blast
  from a(4) obtain c where c: "r = Inr c" "load_gamestate h1 c = Some ?gs'"
    unfolding sc sum.case by blast
  have 1: "\<exists>c h'. successor_h ?h 9 0 (Some right) = Some (Inr c, h') \<and> take (length ?h) h' = ?h \<and>
                load_gamestate h' 9 = Some ?gs \<and> load_gamestate h' c = Some ?gs'"
    using a(1,2,3) c by blast
  from t[THEN conjunct2, THEN conjunct1] obtain r2 h2 where
    b: "successors_h (\<lambda>xs. xs) ?h 9 0 = Some (r2, h2)" "take (length ?h) h2 = ?h"
       "load_gamestate h2 9 = Some ?gs"
    by blast
  then have 2: "\<exists>r h'. successors_h (\<lambda>xs. xs) ?h 9 0 = Some (r, h') \<and> take (length ?h) h' = ?h \<and>
                load_gamestate h' 9 = Some ?gs"
    by blast
  have 3: "\<exists>out. position_successors_h ?h 15 (1, 1) = Some (out, ?h)"
    using position_successors_h_total[OF lr lf] by blast
  have 4: "\<exists>out. position_pathcost_h ?h 15 [right] = Some (out, ?h)"
    using position_pathcost_h_total[OF lr lf] by blast
  show ?thesis unfolding Let_def
    by (intro conjI ld 1 2 3 4)
qed

text \<open>
  What the copy is for: \<^verbatim>\<open>apply_move\<close> called on the receiver itself changes what the
  receiver reads as.
\<close>

lemma apply_move_h_changes_its_receiver:
  "map_option (\<lambda>(e, h'). (e, map_option agents (load_gamestate h' 7)))
     (apply_move_h [Cells [Empty] , Cells [Dot], Columns [0, 1], Positions [Some (0, 0)],
                    Positions [Some (0, 0)], Facings [stop], Timers [0],
                    Gamestate_object 2 3 4 5 6 0 0 :: int object] 7 0 (Some right))
   = Some (None, Some [Some (1, 0)])"
  by code_simp

end
